theory Spec2Isabelle
  imports Complex_Main
begin

section \<open>Date utilities (src/utils/date.utils.ts)\<close>

subsection \<open>Time values of the host's Date object\<close>

text \<open>
  The functions of date.utils.ts are thin wrappers over the built-in \<open>Date\<close>. A valid
  \<open>Date\<close> holds a time value: an integral number of milliseconds since the epoch,
  of absolute value at most 8.64e15. An invalid \<open>Date\<close> holds NaN, written \<open>None\<close> here.
  The day and year arithmetic below is the one ECMAScript defines for time values
  (Day, DaysInYear, DayFromYear, YearFromTime, MonthFromTime, DateFromTime, MakeDay,
  MakeDate, TimeClip); \<open>div\<close> on \<open>int\<close> rounds down, as \<open>floor\<close> does there.
\<close>

definition msPerDay :: int where
  "msPerDay = 86400000"

definition Day :: "int \<Rightarrow> int" where
  "Day t = t div msPerDay"

definition TimeWithinDay :: "int \<Rightarrow> int" where
  "TimeWithinDay t = t mod msPerDay"

definition DaysInYear :: "int \<Rightarrow> int" where
  "DaysInYear y =
     (if y mod 4 \<noteq> 0 then 365
      else if y mod 100 \<noteq> 0 then 366
      else if y mod 400 \<noteq> 0 then 365
      else 366)"

definition DayFromYear :: "int \<Rightarrow> int" where
  "DayFromYear y =
     365 * (y - 1970) + (y - 1969) div 4 - (y - 1901) div 100 + (y - 1601) div 400"

definition TimeFromYear :: "int \<Rightarrow> int" where
  "TimeFromYear y = msPerDay * DayFromYear y"

text \<open>
  ECMAScript defines YearFromTime(t) as the largest year \<open>y\<close> with
  \<open>TimeFromYear y \<le> t\<close>. The executable form estimates the year from the mean
  length of a Gregorian year (146097 days in 400 years) and corrects the estimate by
  at most one; lemma \<open>YearFromTime_largest\<close> below proves that it is that largest year.
\<close>

definition YearFromDay :: "int \<Rightarrow> int" where
  "YearFromDay d =
     (let g = 1970 + (400 * d) div 146097 in
      if DayFromYear (g + 1) \<le> d then g + 1
      else if DayFromYear g \<le> d then g
      else g - 1)"

definition YearFromTime :: "int \<Rightarrow> int" where
  "YearFromTime t = YearFromDay (Day t)"

definition LeapDays :: "int \<Rightarrow> int" where
  \<comment> \<open>InLeapYear, for a year: 1 in a leap year and 0 otherwise\<close>
  "LeapDays y = (if DaysInYear y = 366 then 1 else 0)"

definition InLeapYear :: "int \<Rightarrow> int" where
  "InLeapYear t = LeapDays (YearFromTime t)"

definition DayWithinYear :: "int \<Rightarrow> int" where
  "DayWithinYear t = Day t - DayFromYear (YearFromTime t)"

definition MonthOfDay :: "int \<Rightarrow> int \<Rightarrow> int" where
  \<comment> \<open>the table of MonthFromTime: day within the year and leap flag to month 0..11\<close>
  "MonthOfDay d l =
     (if d < 31 then 0
      else if d < 59 + l then 1
      else if d < 90 + l then 2
      else if d < 120 + l then 3
      else if d < 151 + l then 4
      else if d < 181 + l then 5
      else if d < 212 + l then 6
      else if d < 243 + l then 7
      else if d < 273 + l then 8
      else if d < 304 + l then 9
      else if d < 334 + l then 10
      else 11)"

definition MonthFromTime :: "int \<Rightarrow> int" where
  "MonthFromTime t = MonthOfDay (DayWithinYear t) (InLeapYear t)"

definition MonthStart :: "int \<Rightarrow> int \<Rightarrow> int" where
  \<comment> \<open>day within the year of the first day of month m (0..11)\<close>
  "MonthStart m l =
     (if m = 0 then 0
      else if m = 1 then 31
      else if m = 2 then 59 + l
      else if m = 3 then 90 + l
      else if m = 4 then 120 + l
      else if m = 5 then 151 + l
      else if m = 6 then 181 + l
      else if m = 7 then 212 + l
      else if m = 8 then 243 + l
      else if m = 9 then 273 + l
      else if m = 10 then 304 + l
      else 334 + l)"

definition DateFromTime :: "int \<Rightarrow> int" where
  "DateFromTime t =
     DayWithinYear t - MonthStart (MonthFromTime t) (InLeapYear t) + 1"

definition HourFromTime :: "int \<Rightarrow> int" where
  "HourFromTime t = (t div 3600000) mod 24"

definition MinFromTime :: "int \<Rightarrow> int" where
  "MinFromTime t = (t div 60000) mod 60"

definition SecFromTime :: "int \<Rightarrow> int" where
  "SecFromTime t = (t div 1000) mod 60"

definition msFromTime :: "int \<Rightarrow> int" where
  "msFromTime t = t mod 1000"

definition MakeDay :: "int \<Rightarrow> int \<Rightarrow> int \<Rightarrow> int" where
  \<comment> \<open>the day number of day \<open>dt\<close> of month \<open>month\<close> (counted from 0) of \<open>year\<close>\<close>
  "MakeDay year month dt =
     (let ym = year + month div 12; mn = month mod 12
      in DayFromYear ym + MonthStart mn (LeapDays ym) + dt - 1)"

definition MakeDate :: "int \<Rightarrow> int \<Rightarrow> int" where
  "MakeDate day time = day * msPerDay + time"

definition ToIntegerOrInfinity :: "real \<Rightarrow> int" where
  \<comment> \<open>truncation towards zero\<close>
  "ToIntegerOrInfinity r = (if r < 0 then \<lceil>r\<rceil> else \<lfloor>r\<rfloor>)"

definition TimeClip :: "real option \<Rightarrow> int option" where
  \<comment> \<open>\<open>None\<close> is a number that is not finite (NaN, Infinity, -Infinity)\<close>
  "TimeClip n =
     (case n of
        None \<Rightarrow> None
      | Some r \<Rightarrow> if \<bar>r\<bar> > 8640000000000000 then None else Some (ToIntegerOrInfinity r))"

definition DaysInMonth :: "int \<Rightarrow> int \<Rightarrow> int" where
  \<comment> \<open>length of month m (1..12) of year y\<close>
  "DaysInMonth y m =
     (if m = 2 then 28 + LeapDays y
      else if m = 4 \<or> m = 6 \<or> m = 9 \<or> m = 11 then 30
      else 31)"

subsection \<open>Decimal fields of date strings\<close>

definition digit_char :: "nat \<Rightarrow> char" where
  \<comment> \<open>the character of a decimal digit\<close>
  "digit_char n = ''0123456789'' ! (n mod 10)"

definition digit_of :: "char \<Rightarrow> nat option" where
  \<comment> \<open>the value of a decimal digit, \<open>None\<close> for any other character\<close>
  "digit_of =
     map_of [(CHR ''0'', 0), (CHR ''1'', 1), (CHR ''2'', 2), (CHR ''3'', 3), (CHR ''4'', 4),
             (CHR ''5'', 5), (CHR ''6'', 6), (CHR ''7'', 7), (CHR ''8'', 8), (CHR ''9'', 9)]"

primrec pad :: "nat \<Rightarrow> nat \<Rightarrow> string" where
  \<comment> \<open>\<open>pad k n\<close>: the last \<open>k\<close> decimal digits of \<open>n\<close>, with leading zeros\<close>
  "pad 0 n = []"
| "pad (Suc k) n = pad k (n div 10) @ [digit_char (n mod 10)]"

primrec digits_val :: "nat \<Rightarrow> string \<Rightarrow> nat option" where
  "digits_val acc [] = Some acc"
| "digits_val acc (c # cs) =
     (case digit_of c of None \<Rightarrow> None | Some d \<Rightarrow> digits_val (10 * acc + d) cs)"

fun digits10 :: "nat \<Rightarrow> string" where
  "digits10 n = (if n < 10 then [digit_char n] else digits10 (n div 10) @ [digit_char (n mod 10)])"

declare digits10.simps [simp del]

definition Number_toString :: "int \<Rightarrow> string" where
  \<comment> \<open>the decimal string of an integral number, as a template literal prints it\<close>
  "Number_toString i =
     (if i < 0 then CHR ''-'' # digits10 (nat (- i)) else digits10 (nat i))"

subsection \<open>toISOString and Date.parse\<close>

definition year_string :: "int \<Rightarrow> string" where
  \<comment> \<open>four digits for the years 0 to 9999, otherwise a sign and six digits\<close>
  "year_string y =
     (if 0 \<le> y \<and> y \<le> 9999 then pad 4 (nat y)
      else (if y < 0 then CHR ''-'' else CHR ''+'') # pad 6 (nat \<bar>y\<bar>))"

definition date_string :: "int \<Rightarrow> string" where
  "date_string t =
     year_string (YearFromTime t) @ ''-'' @ pad 2 (nat (MonthFromTime t + 1)) @ ''-''
       @ pad 2 (nat (DateFromTime t))"

definition time_string :: "int \<Rightarrow> string" where
  "time_string t =
     pad 2 (nat (HourFromTime t)) @ '':'' @ pad 2 (nat (MinFromTime t)) @ '':''
       @ pad 2 (nat (SecFromTime t)) @ ''.'' @ pad 3 (nat (msFromTime t))"

definition toISOString :: "int \<Rightarrow> string" where
  \<comment> \<open>\<open>YYYY-MM-DDTHH:mm:ss.sssZ\<close> of a valid time value\<close>
  "toISOString t = date_string t @ ''T'' @ time_string t @ ''Z''"

definition parse_fields :: "string \<Rightarrow> (int \<times> int \<times> int) option" where
  \<comment> \<open>year, month and day of a string \<open>YYYY-MM-DD\<close> or \<open>+YYYYYY-MM-DD\<close>, \<open>-YYYYYY-MM-DD\<close>\<close>
  "parse_fields s =
     (if length s = 10 \<and> s ! 4 = CHR ''-'' \<and> s ! 7 = CHR ''-'' then
        (case (digits_val 0 (take 4 s), digits_val 0 (take 2 (drop 5 s)),
               digits_val 0 (drop 8 s)) of
           (Some y, Some m, Some d) \<Rightarrow> Some (int y, int m, int d)
         | _ \<Rightarrow> None)
      else if length s = 13 \<and> (s ! 0 = CHR ''+'' \<or> s ! 0 = CHR ''-'')
              \<and> s ! 7 = CHR ''-'' \<and> s ! 10 = CHR ''-'' then
        (case (digits_val 0 (take 6 (drop 1 s)), digits_val 0 (take 2 (drop 8 s)),
               digits_val 0 (drop 11 s)) of
           (Some y, Some m, Some d) \<Rightarrow>
             if s ! 0 = CHR ''-'' then (if y = 0 then None else Some (- int y, int m, int d))
             else Some (int y, int m, int d)
         | _ \<Rightarrow> None)
      else None)"

definition parse_date_only :: "string \<Rightarrow> int option" where
  \<comment> \<open>the UTC midnight of a calendar date written in the date-only form\<close>
  "parse_date_only s =
     (case parse_fields s of
        None \<Rightarrow> None
      | Some (y, m, d) \<Rightarrow>
          if 1 \<le> m \<and> m \<le> 12 \<and> 1 \<le> d \<and> d \<le> DaysInMonth y m
          then Some (MakeDate (MakeDay y (m - 1) d) 0)
          else None)"

text \<open>
  \<open>Date.parse\<close> reads a calendar date in the date-only form of the ECMAScript
  date-time string format as the UTC midnight of that date. Every other string (the
  forms with a time, a month or day out of range, and the formats only the host
  defines) is left to the host: \<open>host\<close> is the number its parser yields for such a
  string, \<open>None\<close> for NaN.
\<close>

definition Date_parse :: "(string \<Rightarrow> real option) \<Rightarrow> string \<Rightarrow> real option" where
  "Date_parse host s =
     (case parse_date_only s of Some t \<Rightarrow> Some (real_of_int t) | None \<Rightarrow> host s)"

subsection \<open>The functions of date.utils.ts\<close>

datatype DateInput =
    DateObj "int option"   \<comment> \<open>a Date object, by its time value\<close>
  | StrIn string
  | NumIn "real option"    \<comment> \<open>a number; \<open>None\<close> when it is not finite\<close>

datatype exn = RangeError

datatype TimeUnit =
  Milliseconds | Seconds | Minutes | Hours | Days | Weeks | Months | Years

definition new_Date :: "(string \<Rightarrow> real option) \<Rightarrow> DateInput \<Rightarrow> int option" where
  \<comment> \<open>\<open>new Date(input)\<close>: the time value of the new object\<close>
  "new_Date host input =
     (case input of
        DateObj tv \<Rightarrow> TimeClip (map_option real_of_int tv)
      | StrIn s \<Rightarrow> TimeClip (Date_parse host s)
      | NumIn n \<Rightarrow> TimeClip n)"

definition toDate :: "(string \<Rightarrow> real option) \<Rightarrow> DateInput \<Rightarrow> exn + int" where
  "toDate host input =
     (case new_Date host input of
        None \<Rightarrow> Inl RangeError
      | Some t \<Rightarrow> Inr t)"



definition msPerUnit :: "TimeUnit \<Rightarrow> int" where
  "msPerUnit u =
     (case u of
        Milliseconds \<Rightarrow> 1
      | Seconds \<Rightarrow> 1000
      | Minutes \<Rightarrow> 60000
      | Hours \<Rightarrow> 3600000
      | Days \<Rightarrow> 86400000
      | Weeks \<Rightarrow> 604800000
      | Months \<Rightarrow> 2592000000
      | Years \<Rightarrow> 31536000000)"

text \<open>
  The numbers of the source are IEEE-754 doubles. A time value and a unit constant are
  integers below 2^53 in magnitude, which are doubles as they stand; a difference of
  two time values and a quotient need not be, and the host returns the double nearest
  to the exact result, a tie going to the double with the even significand.
  \<^item> \<open>bit_length n\<close> is the number of binary digits of \<open>n\<close>;
  \<^item> \<open>round_half_even n d\<close> is the integer nearest to \<open>n / d\<close>, for \<open>d\<close> above 0, a tie
    going to the even one;
  \<^item> \<open>double_of_int n\<close> is the double nearest to the integer \<open>n\<close>: \<open>n\<close> itself up to 53
    binary digits, otherwise rounded to a multiple of the power of two that leaves 53;
  \<^item> \<open>double_quot p q\<close> is the double nearest to \<open>p / q\<close>, for a divisor \<open>q\<close> above 0:
    with \<open>2^e\<close> the power of two at or below \<open>\<bar>p\<bar> / q\<close>, the quotient rounded to a
    multiple of \<open>2^(e - 52)\<close>.
  Doubles that are not finite and subnormal doubles do not occur: the differences are
  below 2^54 in magnitude and the constants lie between 1 and 31536000000.

  \<open>diffTime\<close> converts both inputs, subtracts the two time values and divides the
  difference by the constant of the unit, each operation rounding to a double.
\<close>

fun bit_length :: "nat \<Rightarrow> nat" where
  "bit_length n = (if n = 0 then 0 else 1 + bit_length (n div 2))"

declare bit_length.simps [simp del]

definition round_half_even :: "int \<Rightarrow> int \<Rightarrow> int" where
  "round_half_even n d =
     (let q = n div d; r = n mod d
      in if 2 * r < d then q
         else if d < 2 * r then q + 1
         else if even q then q else q + 1)"

definition double_of_int :: "int \<Rightarrow> int" where
  "double_of_int n =
     (let k = bit_length (nat \<bar>n\<bar>) - 53
      in sgn n * (round_half_even \<bar>n\<bar> (2 ^ k) * 2 ^ k))"

definition quot_exponent :: "int \<Rightarrow> int \<Rightarrow> int" where
  "quot_exponent a q =
     (let la = bit_length (nat a); lq = bit_length (nat q)
      in if q * 2 ^ la \<le> a * 2 ^ lq then int la - int lq else int la - int lq - 1)"

definition double_quot :: "int \<Rightarrow> int \<Rightarrow> real" where
  "double_quot p q =
     (if p = 0 then 0
      else
        (let a = \<bar>p\<bar>; s = 52 - quot_exponent a q
         in if 0 \<le> s
            then real_of_int (sgn p * round_half_even (a * 2 ^ nat s) q) / 2 ^ nat s
            else real_of_int (sgn p * round_half_even a (q * 2 ^ nat (- s))) * 2 ^ nat (- s)))"

definition diffTime ::
  "(string \<Rightarrow> real option) \<Rightarrow> DateInput \<Rightarrow> DateInput \<Rightarrow> TimeUnit \<Rightarrow> exn + real" where
  "diffTime host a b unit =
     (case toDate host a of
        Inl e \<Rightarrow> Inl e
      | Inr msA \<Rightarrow>
          (case toDate host b of
             Inl e \<Rightarrow> Inl e
           | Inr msB \<Rightarrow>
               (let diffMs = double_of_int (msA - msB)
                in Inr (double_quot diffMs (msPerUnit unit)))))"

section \<open>Toast service (src/toast/toast.service.ts)\<close>

datatype ToastType = Success | Error | Warning | Info

text \<open>
  The field \<open>id\<close> of the source is \<open>toast_id\<close> and the field \<open>type\<close> is \<open>toast_type\<close>.
  A duration is a number of milliseconds; the model has the integral ones.
\<close>

record Toast =
  toast_id :: string
  message :: string
  toast_type :: ToastType
  duration :: int
  createdAt :: string

definition DEFAULT_DURATION :: "ToastType \<Rightarrow> int" where
  "DEFAULT_DURATION ty =
     (case ty of Success \<Rightarrow> 4000 | Info \<Rightarrow> 5000 | Warning \<Rightarrow> 6000 | Error \<Rightarrow> 8000)"

text \<open>
  The state of the service and of the part of its environment it acts on:
  \<^item> \<open>toasts\<close>: the value the BehaviorSubject \<open>_toasts$\<close> holds;
  \<^item> \<open>emitted\<close>: the values passed to \<open>_toasts$.next\<close>, oldest first; every observer
    subscribed to \<open>toasts$\<close> receives each of them;
  \<^item> \<open>timers\<close>: the pending one-shot timers, in the order they were started, each with
    its due time and the id its callback dismisses;
  \<^item> \<open>clock\<close>: the millisecond clock that \<open>Date.now()\<close> and \<open>new Date()\<close> read.
  A method call runs to completion at one reading of the clock.
\<close>

record ToastService =
  toasts :: "Toast list"
  emitted :: "Toast list list"
  timers :: "(int \<times> string) list"
  clock :: int

definition new_ToastService :: "int \<Rightarrow> ToastService" where
  \<comment> \<open>the service after construction, at clock reading \<open>c\<close>\<close>
  "new_ToastService c = \<lparr>toasts = [], emitted = [], timers = [], clock = c\<rparr>"

definition getValue :: "ToastService \<Rightarrow> Toast list" where
  "getValue s = toasts s"

definition subject_next :: "Toast list \<Rightarrow> ToastService \<Rightarrow> ToastService" where
  \<comment> \<open>\<open>_toasts$.next(v)\<close>: store the value and send it to the observers\<close>
  "subject_next v s = s\<lparr>toasts := v, emitted := emitted s @ [v]\<rparr>"

definition slice :: "nat \<Rightarrow> nat \<Rightarrow> string \<Rightarrow> string" where
  \<comment> \<open>\<open>s.slice(b, e)\<close> for indices that are not negative\<close>
  "slice b e s = take (e - b) (drop b s)"

text \<open>
  \<open>generateId\<close> reads the clock and a random number. \<open>rnd\<close> is the string
  \<open>Math.random().toString(36)\<close> of that call, such as \<open>0.k3x9q2m81f\<close>.
\<close>

definition generateId :: "int \<Rightarrow> string \<Rightarrow> string" where
  "generateId now rnd = ''toast-'' @ Number_toString now @ ''-'' @ slice 2 7 rnd"

definition dismiss :: "string \<Rightarrow> ToastService \<Rightarrow> ToastService" where
  "dismiss i s = subject_next (filter (\<lambda>t. toast_id t \<noteq> i) (getValue s)) s"

definition dismissAll :: "ToastService \<Rightarrow> ToastService" where
  "dismissAll s = subject_next [] s"

definition start_timer :: "int \<Rightarrow> string \<Rightarrow> ToastService \<Rightarrow> ToastService" where
  \<comment> \<open>\<open>timer(d).pipe(tap(() => this.dismiss(i))).subscribe()\<close>\<close>
  "start_timer d i s = s\<lparr>timers := timers s @ [(clock s + d, i)]\<rparr>"

text \<open>
  \<open>show\<close> is private and, as the four public methods that call it, has the return
  type \<open>void\<close>: the value of such a call is \<open>undefined\<close>, written \<open>None\<close> in the first
  component of the result. The second component is the state after the call.
\<close>

definition show_toast ::
  "string \<Rightarrow> ToastType \<Rightarrow> int option \<Rightarrow> string \<Rightarrow> ToastService
     \<Rightarrow> string option \<times> ToastService" where
  "show_toast msg ty dur rnd s =
     (let resolvedDuration = (case dur of Some d \<Rightarrow> d | None \<Rightarrow> DEFAULT_DURATION ty);
          toast = \<lparr>toast_id = generateId (clock s) rnd,
                   message = msg,
                   toast_type = ty,
                   duration = resolvedDuration,
                   createdAt = toISOString (clock s)\<rparr>;
          s1 = subject_next (getValue s @ [toast]) s;
          s2 = (if resolvedDuration > 0 then start_timer resolvedDuration (toast_id toast) s1
                else s1)
      in (None, s2))"

definition success ::
  "string \<Rightarrow> int option \<Rightarrow> string \<Rightarrow> ToastService \<Rightarrow> string option \<times> ToastService" where
  "success msg dur rnd s = show_toast msg Success dur rnd s"

definition error ::
  "string \<Rightarrow> int option \<Rightarrow> string \<Rightarrow> ToastService \<Rightarrow> string option \<times> ToastService" where
  "error msg dur rnd s = show_toast msg Error dur rnd s"

definition warning ::
  "string \<Rightarrow> int option \<Rightarrow> string \<Rightarrow> ToastService \<Rightarrow> string option \<times> ToastService" where
  "warning msg dur rnd s = show_toast msg Warning dur rnd s"

definition info ::
  "string \<Rightarrow> int option \<Rightarrow> string \<Rightarrow> ToastService \<Rightarrow> string option \<times> ToastService" where
  "info msg dur rnd s = show_toast msg Info dur rnd s"

text \<open>
  Time passes: \<open>elapse dt\<close> moves the clock forward by \<open>dt\<close> milliseconds. The timers
  due by then fire, earliest first and in starting order among equal due times; each
  runs its callback \<open>dismiss\<close> and is gone.
\<close>

definition due_timers :: "int \<Rightarrow> (int \<times> string) list \<Rightarrow> (int \<times> string) list" where
  "due_timers t ts = sort_key fst (filter (\<lambda>p. fst p \<le> t) ts)"

definition elapse :: "nat \<Rightarrow> ToastService \<Rightarrow> ToastService" where
  "elapse dt s =
     (let t = clock s + int dt;
          s1 = s\<lparr>timers := filter (\<lambda>p. \<not> fst p \<le> t) (timers s)\<rparr>;
          s2 = foldl (\<lambda>st p. dismiss (snd p) st) s1 (due_timers t (timers s))
      in s2\<lparr>clock := t\<rparr>)"

text \<open>
  What happens to a service, one event after the other: a call of one of the public
  methods (\<open>Show\<close> with the toast type stands for \<open>success\<close>, \<open>error\<close>, \<open>warning\<close> and
  \<open>info\<close>, and carries the random string of the call), or time passing.
\<close>

datatype event =
    Show string ToastType "int option" string
  | Dismiss string
  | DismissAll
  | Elapse nat

primrec step :: "event \<Rightarrow> ToastService \<Rightarrow> ToastService" where
  "step (Show msg ty dur rnd) s = snd (show_toast msg ty dur rnd s)"
| "step (Dismiss i) s = dismiss i s"
| "step DismissAll s = dismissAll s"
| "step (Elapse dt) s = elapse dt s"

primrec run :: "event list \<Rightarrow> ToastService \<Rightarrow> ToastService" where
  "run [] s = s"
| "run (e # es) s = run es (step e s)"

text \<open>
  \<open>untargeted i es s\<close>: along the events \<open>es\<close> from state \<open>s\<close>, no caller dismisses the
  id \<open>i\<close> or all toasts, and no pending timer ever carries the id \<open>i\<close>.
\<close>

primrec untargeted :: "string \<Rightarrow> event list \<Rightarrow> ToastService \<Rightarrow> bool" where
  "untargeted i [] s = (i \<notin> snd ` set (timers s))"
| "untargeted i (e # es) s =
     (i \<notin> snd ` set (timers s) \<and> e \<noteq> Dismiss i \<and> e \<noteq> DismissAll
      \<and> untargeted i es (step e s))"

section \<open>Date arithmetic\<close>

lemma int_div_unique:
  fixes x :: int
  assumes "x = k * q + r" "0 \<le> r" "r < k"
  shows "x div k = q"
  using assms by fastforce

lemma int_div_step:
  fixes x :: int
  assumes "0 < k"
  shows "(x + 1) div k = x div k + (if (x + 1) mod k = 0 then 1 else 0)"
proof -
  have e: "x + 1 = k * ((x + 1) div k) + (x + 1) mod k" by simp
  have b: "0 \<le> (x + 1) mod k" "(x + 1) mod k < k" using assms by simp_all
  show ?thesis
  proof (cases "(x + 1) mod k = 0")
    case True
    then have "x = k * ((x + 1) div k - 1) + (k - 1)" using e by (simp add: algebra_simps)
    then have "x div k = (x + 1) div k - 1"
      using assms by (intro int_div_unique[where r = "k - 1"]) simp_all
    with True show ?thesis by simp
  next
    case False
    then have "0 < (x + 1) mod k" using b by linarith
    then have "x = k * ((x + 1) div k) + ((x + 1) mod k - 1)"
      "0 \<le> (x + 1) mod k - 1" "(x + 1) mod k - 1 < k"
      using e b by linarith+
    then have "x div k = (x + 1) div k" by (rule int_div_unique)
    with False show ?thesis by simp
  qed
qed

lemma int_div_lower:
  fixes x :: int
  assumes "0 < k"
  shows "k * (x div k) \<le> x"
proof -
  have "x = k * (x div k) + x mod k" by simp
  moreover have "0 \<le> x mod k" using assms by simp
  ultimately show ?thesis by linarith
qed

lemma int_div_upper:
  fixes x :: int
  assumes "0 < k"
  shows "x < k * (x div k) + k"
proof -
  have "x = k * (x div k) + x mod k" by simp
  moreover have "x mod k < k" using assms by simp
  ultimately show ?thesis by linarith
qed

lemma leap_mods:
  fixes y :: int
  shows "(y - 1968) mod 4 = 0 \<longleftrightarrow> y mod 4 = 0"
    and "(y - 1900) mod 100 = 0 \<longleftrightarrow> y mod 100 = 0"
    and "(y - 1600) mod 400 = 0 \<longleftrightarrow> y mod 400 = 0"
    and "y mod 400 = 0 \<Longrightarrow> y mod 100 = 0"
    and "y mod 100 = 0 \<Longrightarrow> y mod 4 = 0"
proof -
  have s: "\<And>k n. (y - k * n) mod k = y mod k"
    by (metis mod_mult_self1 diff_add_cancel mult.commute)
  show "(y - 1968) mod 4 = 0 \<longleftrightarrow> y mod 4 = 0" using s[of 4 492] by simp
  show "(y - 1900) mod 100 = 0 \<longleftrightarrow> y mod 100 = 0" using s[of 100 19] by simp
  show "(y - 1600) mod 400 = 0 \<longleftrightarrow> y mod 400 = 0" using s[of 400 4] by simp
  show "y mod 400 = 0 \<Longrightarrow> y mod 100 = 0" using mod_mod_cancel[of 100 400 y] by simp
  show "y mod 100 = 0 \<Longrightarrow> y mod 4 = 0" using mod_mod_cancel[of 4 100 y] by simp
qed

lemma DayFromYear_Suc: "DayFromYear (y + 1) = DayFromYear y + DaysInYear y"
proof -
  have a: "(y + 1 - 1969) div 4 = (y - 1969) div 4 + (if y mod 4 = 0 then 1 else 0)"
    using int_div_step[of 4 "y - 1969"] leap_mods(1)[of y] by (simp add: algebra_simps)
  have b: "(y + 1 - 1901) div 100 = (y - 1901) div 100 + (if y mod 100 = 0 then 1 else 0)"
    using int_div_step[of 100 "y - 1901"] leap_mods(2)[of y] by (simp add: algebra_simps)
  have c: "(y + 1 - 1601) div 400 = (y - 1601) div 400 + (if y mod 400 = 0 then 1 else 0)"
    using int_div_step[of 400 "y - 1601"] leap_mods(3)[of y] by (simp add: algebra_simps)
  show ?thesis unfolding DayFromYear_def DaysInYear_def a b c
    using leap_mods(4,5)[of y] by auto
qed

lemma DaysInYear_cases: "DaysInYear y = 365 \<or> DaysInYear y = 366"
  by (simp add: DaysInYear_def)

lemma DayFromYear_strict_mono_nat: "DayFromYear y < DayFromYear (y + 1 + int n)"
proof (induction n)
  case 0
  show ?case using DayFromYear_Suc[of y] DaysInYear_cases[of y] by auto
next
  case (Suc n)
  have "DayFromYear (y + 1 + int (Suc n)) = DayFromYear (y + 1 + int n) + DaysInYear (y + 1 + int n)"
    using DayFromYear_Suc[of "y + 1 + int n"] by (simp add: algebra_simps)
  then show ?case using Suc DaysInYear_cases[of "y + 1 + int n"] by auto
qed

lemma DayFromYear_strict_mono:
  assumes "y < z"
  shows "DayFromYear y < DayFromYear z"
proof -
  have "z = y + 1 + int (nat (z - y - 1))" using assms by simp
  then show ?thesis using DayFromYear_strict_mono_nat[of y "nat (z - y - 1)"] by simp
qed

lemma DayFromYear_bounds:
  "400 * DayFromYear y \<le> 146097 * (y - 1970) + 593"
  "146097 * (y - 1970) - 607 \<le> 400 * DayFromYear y"
proof -
  define a where "a = (y - 1969) div 4"
  define b where "b = (y - 1901) div 100"
  define c where "c = (y - 1601) div 400"
  have a1: "4 * a \<le> y - 1969" "y - 1969 < 4 * a + 4"
    unfolding a_def by (rule int_div_lower, simp) (rule int_div_upper, simp)
  have b1: "100 * b \<le> y - 1901" "y - 1901 < 100 * b + 100"
    unfolding b_def by (rule int_div_lower, simp) (rule int_div_upper, simp)
  have c1: "400 * c \<le> y - 1601" "y - 1601 < 400 * c + 400"
    unfolding c_def by (rule int_div_lower, simp) (rule int_div_upper, simp)
  have D: "DayFromYear y = 365 * (y - 1970) + a - b + c"
    unfolding DayFromYear_def a_def b_def c_def by simp
  show "400 * DayFromYear y \<le> 146097 * (y - 1970) + 593" using D a1 b1 c1 by simp
  show "146097 * (y - 1970) - 607 \<le> 400 * DayFromYear y" using D a1 b1 c1 by simp
qed

lemma YearFromDay_lower: "DayFromYear (YearFromDay d) \<le> d"
proof -
  define g where "g = 1970 + (400 * d) div 146097"
  have q1: "146097 * (g - 1970) \<le> 400 * d"
    unfolding g_def using int_div_lower[of 146097 "400 * d"] by simp
  have "400 * DayFromYear (g - 1) \<le> 400 * d"
    using DayFromYear_bounds(1)[of "g - 1"] q1 by simp
  then have "DayFromYear (g - 1) \<le> d" by simp
  then show ?thesis unfolding YearFromDay_def g_def[symmetric] Let_def by auto
qed

lemma YearFromDay_upper: "d < DayFromYear (YearFromDay d + 1)"
proof -
  define g where "g = 1970 + (400 * d) div 146097"
  have q1: "400 * d < 146097 * (g - 1970) + 146097"
    unfolding g_def using int_div_upper[of 146097 "400 * d"] by simp
  have "400 * d < 400 * DayFromYear (g + 2)"
    using DayFromYear_bounds(2)[of "g + 2"] q1 by simp
  then have "d < DayFromYear (g + 2)" by simp
  then show ?thesis
    unfolding YearFromDay_def g_def[symmetric] Let_def by (auto simp: add.commute)
qed

lemma TimeFromYear_le_iff: "TimeFromYear y \<le> t \<longleftrightarrow> DayFromYear y \<le> Day t"
proof
  assume a: "TimeFromYear y \<le> t"
  have "t < msPerDay * (t div msPerDay) + msPerDay"
    by (rule int_div_upper) (simp add: msPerDay_def)
  with a have "msPerDay * DayFromYear y < msPerDay * (Day t + 1)"
    by (simp add: TimeFromYear_def Day_def algebra_simps)
  then have "DayFromYear y < Day t + 1" by (simp add: msPerDay_def)
  then show "DayFromYear y \<le> Day t" by simp
next
  assume "DayFromYear y \<le> Day t"
  then have "msPerDay * DayFromYear y \<le> msPerDay * Day t" by (simp add: msPerDay_def)
  moreover have "msPerDay * (t div msPerDay) \<le> t"
    by (rule int_div_lower) (simp add: msPerDay_def)
  ultimately show "TimeFromYear y \<le> t" by (simp add: TimeFromYear_def Day_def)
qed

lemma YearFromTime_largest:
  "TimeFromYear (YearFromTime t) \<le> t \<and> (\<forall>y. TimeFromYear y \<le> t \<longrightarrow> y \<le> YearFromTime t)"
proof (intro conjI allI impI)
  show "TimeFromYear (YearFromTime t) \<le> t"
    by (simp add: TimeFromYear_le_iff YearFromTime_def YearFromDay_lower)
next
  fix y
  assume "TimeFromYear y \<le> t"
  then have "DayFromYear y \<le> Day t" by (simp add: TimeFromYear_le_iff)
  also have "Day t < DayFromYear (YearFromTime t + 1)"
    by (simp add: YearFromTime_def YearFromDay_upper)
  finally have "\<not> YearFromTime t + 1 \<le> y"
    using DayFromYear_strict_mono[of "YearFromTime t + 1" y] by (cases "YearFromTime t + 1 = y") auto
  then show "y \<le> YearFromTime t" by simp
qed


lemma DaysInYear_LeapDays: "DaysInYear y = 365 + LeapDays y"
  using DaysInYear_cases[of y] by (auto simp: LeapDays_def)

lemma LeapDays_cases: "LeapDays y = 0 \<or> LeapDays y = 1"
  by (simp add: LeapDays_def)












section \<open>Decimal fields\<close>

lemma digit_of_digit_char: "digit_of (digit_char n) = Some (n mod 10)"
proof -
  define k where "k = n mod 10"
  have "k < 10" by (simp add: k_def)
  then have "k = 0 \<or> k = 1 \<or> k = 2 \<or> k = 3 \<or> k = 4 \<or> k = 5 \<or> k = 6
    \<or> k = 7 \<or> k = 8 \<or> k = 9"
    by presburger
  then have "digit_of (''0123456789'' ! k) = Some k"
    by (elim disjE) (simp_all add: digit_of_def)
  then show ?thesis by (simp add: digit_char_def k_def)
qed




lemma digits_val_append:
  "digits_val acc (xs @ ys) =
     (case digits_val acc xs of None \<Rightarrow> None | Some a \<Rightarrow> digits_val a ys)"
  by (induction xs arbitrary: acc) (simp_all split: option.splits)






section \<open>Formatting and parsing a calendar date\<close>







section \<open>Valid time values\<close>

lemma ToIntegerOrInfinity_of_int: "ToIntegerOrInfinity (real_of_int t) = t"
  by (simp add: ToIntegerOrInfinity_def)

lemma TimeClip_of_int:
  "TimeClip (Some (real_of_int t)) = (if \<bar>t\<bar> > 8640000000000000 then None else Some t)"
proof -
  have "\<bar>real_of_int t\<bar> > 8640000000000000 \<longleftrightarrow> \<bar>t\<bar> > 8640000000000000"
    by linarith
  then show ?thesis by (simp add: TimeClip_def ToIntegerOrInfinity_of_int)
qed




section \<open>From a calendar date to its time value and back\<close>



lemma month_cases:
  fixes m :: int
  assumes "1 \<le> m" "m \<le> 12"
  shows "m = 1 \<or> m = 2 \<or> m = 3 \<or> m = 4 \<or> m = 5 \<or> m = 6 \<or> m = 7 \<or> m = 8 \<or> m = 9
         \<or> m = 10 \<or> m = 11 \<or> m = 12"
  using assms by presburger

lemma MonthOfDay_MonthStart:
  assumes "1 \<le> m" "m \<le> 12" "1 \<le> d" "d \<le> DaysInMonth y m"
  shows "MonthOfDay (MonthStart (m - 1) (LeapDays y) + d - 1) (LeapDays y) = m - 1"
    and "0 \<le> MonthStart (m - 1) (LeapDays y) + d - 1"
    and "MonthStart (m - 1) (LeapDays y) + d - 1 < DaysInYear y"
proof -
  note c = month_cases[OF assms(1,2)] LeapDays_cases[of y]
  show "MonthOfDay (MonthStart (m - 1) (LeapDays y) + d - 1) (LeapDays y) = m - 1"
    using c assms(3,4)
    by (elim disjE) (simp_all add: MonthOfDay_def MonthStart_def DaysInMonth_def)
  show "0 \<le> MonthStart (m - 1) (LeapDays y) + d - 1"
    using c assms(3,4)
    by (elim disjE) (simp_all add: MonthStart_def DaysInMonth_def)
  show "MonthStart (m - 1) (LeapDays y) + d - 1 < DaysInYear y"
    using c assms(3,4)
    by (elim disjE) (simp_all add: MonthStart_def DaysInMonth_def DaysInYear_LeapDays)
qed

lemma MakeDay_in_month:
  assumes "1 \<le> m" "m \<le> 12"
  shows "MakeDay y (m - 1) d = DayFromYear y + MonthStart (m - 1) (LeapDays y) + d - 1"
proof -
  have "(m - 1) div 12 = 0" "(m - 1) mod 12 = m - 1" using assms by simp_all
  then show ?thesis by (simp add: MakeDay_def)
qed




lemma four_digit_year_in_range:
  assumes "0 \<le> y" "y \<le> 9999" "1 \<le> m" "m \<le> 12" "1 \<le> d" "d \<le> DaysInMonth y m"
  shows "\<bar>MakeDate (MakeDay y (m - 1) d) 0\<bar> \<le> 8640000000000000"
proof -
  let ?w = "MonthStart (m - 1) (LeapDays y) + d - 1"
  have w: "0 \<le> ?w" "?w < DaysInYear y"
    using MonthOfDay_MonthStart(2,3)[OF assms(3-6)] by simp_all
  have w366: "?w < 366" using w(2) DaysInYear_cases[of y] by auto
  have lo: "146097 * (y - 1970) - 607 \<le> 400 * DayFromYear y"
    and hi: "400 * DayFromYear y \<le> 146097 * (y - 1970) + 593"
    using DayFromYear_bounds[of y] by simp_all
  have "- 100000000 \<le> DayFromYear y + ?w" "DayFromYear y + ?w \<le> 100000000"
    using lo hi w(1) w366 assms(1,2) by auto
  then show ?thesis
    by (simp add: MakeDate_def MakeDay_in_month[OF assms(3,4)] msPerDay_def)
qed



section \<open>Evaluation at particular dates\<close>

lemma TimeClip_numeral:
  "TimeClip (Some (numeral k)) =
     (if (numeral k :: int) > 8640000000000000 then None else Some (numeral k))"
  "TimeClip (Some (- numeral k)) =
     (if (numeral k :: int) > 8640000000000000 then None else Some (- numeral k))"
  using TimeClip_of_int[of "numeral k"] TimeClip_of_int[of "- numeral k"] by simp_all


lemma parse_2025_01_18: "parse_date_only ''2025-01-18'' = Some 1737158400000"
  by code_simp

lemma parse_2025_01_15: "parse_date_only ''2025-01-15'' = Some 1736899200000"
  by code_simp





lemma toDate_2025_01_18: "toDate host (StrIn ''2025-01-18'') = Inr 1737158400000"
  by (simp add: toDate_def new_Date_def Date_parse_def TimeClip_numeral parse_2025_01_18)

lemma toDate_2025_01_15: "toDate host (StrIn ''2025-01-15'') = Inr 1736899200000"
  by (simp add: toDate_def new_Date_def Date_parse_def TimeClip_numeral parse_2025_01_15)

section \<open>Rounding to doubles\<close>

lemma bit_length_0: "bit_length 0 = 0"
  by (simp add: bit_length.simps)

lemma bit_length_pos: "0 < n \<Longrightarrow> bit_length n = 1 + bit_length (n div 2)"
  by (subst bit_length.simps) simp

lemma bit_length_bounds:
  "0 < n \<Longrightarrow> 2 ^ (bit_length n - 1) \<le> n \<and> n < 2 ^ bit_length n"
proof (induction n rule: bit_length.induct)
  case (1 n)
  show ?case
  proof (cases "n div 2 = 0")
    case True
    then have "n = 1" using 1(2) by linarith
    then show ?thesis by (simp add: bit_length_pos bit_length_0)
  next
    case False
    then have h: "0 < n div 2" by simp
    have ih: "2 ^ (bit_length (n div 2) - 1) \<le> n div 2 \<and> n div 2 < 2 ^ bit_length (n div 2)"
      using 1(1) 1(2) h by simp
    have b1: "1 \<le> bit_length (n div 2)" using h by (simp add: bit_length_pos)
    then have p: "(2::nat) ^ bit_length (n div 2) = 2 * 2 ^ (bit_length (n div 2) - 1)"
      by (cases "bit_length (n div 2)") simp_all
    define m where "m = n div 2"
    define c where "c = (2::nat) ^ (bit_length m - 1)"
    have n2: "2 * m \<le> n" "n < 2 * m + 2" unfolding m_def by linarith+
    have ih': "c \<le> m" "m < 2 * c" using ih p unfolding m_def[symmetric] c_def by simp_all
    have "2 ^ (bit_length n - 1) = 2 * c"
      using p by (simp add: bit_length_pos[OF 1(2)] m_def[symmetric] c_def)
    moreover have "2 ^ bit_length n = 2 * (2 * c)"
      using p by (simp add: bit_length_pos[OF 1(2)] m_def[symmetric] c_def)
    ultimately show ?thesis using n2 ih' by simp
  qed
qed

lemma bit_length_real:
  assumes "0 < a"
  shows "2 powr (real (bit_length (nat a)) - 1) \<le> real_of_int a"
    and "real_of_int a < 2 powr real (bit_length (nat a))"
proof -
  define L where "L = bit_length (nat a)"
  have n: "0 < nat a" using assms by simp
  have b: "1 \<le> L" using n by (simp add: L_def bit_length_pos)
  have lo: "2 ^ (L - 1) \<le> nat a" and hi: "nat a < 2 ^ L"
    using bit_length_bounds[OF n] by (simp_all add: L_def)
  have ra: "real (nat a) = real_of_int a" using assms by simp
  have p1: "2 powr (real L - 1) = (2::real) ^ (L - 1)"
  proof -
    have "real L - 1 = real (L - 1)" using b by simp
    then show ?thesis by (simp only: powr_realpow[of 2, simplified])
  qed
  have p2: "2 powr real L = (2::real) ^ L"
    by (simp only: powr_realpow[of 2, simplified])
  have "real (2 ^ (L - 1)) \<le> real (nat a)" using lo by (simp only: of_nat_le_iff)
  then have "(2::real) ^ (L - 1) \<le> real_of_int a" by (simp only: ra of_nat_power of_nat_numeral)
  then show "2 powr (real (bit_length (nat a)) - 1) \<le> real_of_int a"
    by (simp only: p1 L_def[symmetric])
  have "real (nat a) < real (2 ^ L)" using hi by (simp only: of_nat_less_iff)
  then have "real_of_int a < (2::real) ^ L" by (simp only: ra of_nat_power of_nat_numeral)
  then show "real_of_int a < 2 powr real (bit_length (nat a))"
    by (simp only: p2 L_def[symmetric])
qed

lemma quot_exponent_bounds:
  assumes "0 < a" "0 < q"
  shows "2 powr real_of_int (quot_exponent a q) \<le> real_of_int a / real_of_int q"
    and "real_of_int a / real_of_int q < 2 powr (real_of_int (quot_exponent a q) + 1)"
proof -
  define la where "la = bit_length (nat a)"
  define lq where "lq = bit_length (nat q)"
  define A where "A = real_of_int a"
  define Q where "Q = real_of_int q"
  have A: "0 < A" and Q: "0 < Q" using assms by (simp_all add: A_def Q_def)
  have a1: "2 powr (real la - 1) \<le> A" and a2: "A < 2 powr real la"
    using bit_length_real[OF assms(1)] by (simp_all add: la_def A_def)
  have q1: "2 powr (real lq - 1) \<le> Q" and q2: "Q < 2 powr real lq"
    using bit_length_real[OF assms(2)] by (simp_all add: lq_def Q_def)
  have c: "q * 2 ^ la \<le> a * 2 ^ lq \<longleftrightarrow> 2 powr (real la - real lq) \<le> A / Q"
  proof -
    have "q * 2 ^ la \<le> a * 2 ^ lq \<longleftrightarrow> real_of_int (q * 2 ^ la) \<le> real_of_int (a * 2 ^ lq)"
      by (simp only: of_int_le_iff)
    also have "\<dots> \<longleftrightarrow> Q * 2 powr real la \<le> A * 2 powr real lq"
      by (simp add: powr_realpow A_def Q_def)
    also have "\<dots> \<longleftrightarrow> 2 powr real la / 2 powr real lq \<le> A / Q"
      using Q by (simp add: field_simps)
    also have "\<dots> \<longleftrightarrow> 2 powr (real la - real lq) \<le> A / Q"
      by (simp add: powr_diff)
    finally show ?thesis .
  qed
  have up: "A / Q < 2 powr (real la - real lq + 1)"
  proof -
    have "A / Q < 2 powr real la / Q" using a2 Q by (simp add: divide_strict_right_mono)
    also have "\<dots> \<le> 2 powr real la / 2 powr (real lq - 1)"
      using q1 Q by (intro divide_left_mono) simp_all
    also have "\<dots> = 2 powr (real la - (real lq - 1))"
      by (simp only: powr_diff)
    also have "real la - (real lq - 1) = real la - real lq + 1" by simp
    finally show ?thesis .
  qed
  have low: "2 powr (real la - real lq - 1) \<le> A / Q"
  proof -
    have "real la - real lq - 1 = real la - 1 - real lq" by simp
    then have "2 powr (real la - real lq - 1) = 2 powr (real la - 1) / 2 powr real lq"
      by (simp only: powr_diff)
    also have "\<dots> \<le> A / 2 powr real lq" using a1 by (simp add: divide_right_mono)
    also have "\<dots> \<le> A / Q" using q2 Q A by (intro divide_left_mono) simp_all
    finally show ?thesis .
  qed
  show "2 powr real_of_int (quot_exponent a q) \<le> real_of_int a / real_of_int q"
    using c low
    by (auto simp: quot_exponent_def Let_def la_def[symmetric] lq_def[symmetric]
        A_def[symmetric] Q_def[symmetric])
  show "real_of_int a / real_of_int q < 2 powr (real_of_int (quot_exponent a q) + 1)"
    using c up
    by (auto simp: quot_exponent_def Let_def la_def[symmetric] lq_def[symmetric]
        A_def[symmetric] Q_def[symmetric] not_le)
qed

lemma round_half_even_error:
  assumes "0 < d"
  shows "\<bar>real_of_int (round_half_even n d) - real_of_int n / real_of_int d\<bar> \<le> 1 / 2"
proof -
  define q where "q = n div d"
  define r where "r = n mod d"
  have n: "n = d * q + r" by (simp add: q_def r_def)
  have r: "0 \<le> r" "r < d" using assms by (simp_all add: r_def)
  have e: "real_of_int n / real_of_int d = real_of_int q + real_of_int r / real_of_int d"
    using assms by (simp add: n field_simps)
  have D: "0 < real_of_int d" using assms by simp
  consider "2 * r < d" | "d < 2 * r" | "d = 2 * r" by linarith
  then show ?thesis
  proof cases
    case 1
    then have "round_half_even n d = q" by (simp add: round_half_even_def q_def r_def)
    moreover have "real_of_int r / real_of_int d \<le> 1 / 2"
    proof -
      have "2 * real_of_int r \<le> real_of_int d" using 1 by linarith
      then show ?thesis using D by (simp add: field_simps)
    qed
    moreover have "0 \<le> real_of_int r / real_of_int d" using r D by simp
    ultimately show ?thesis by (simp add: e)
  next
    case 2
    then have "round_half_even n d = q + 1" by (simp add: round_half_even_def q_def r_def)
    moreover have "1 / 2 \<le> real_of_int r / real_of_int d"
    proof -
      have "real_of_int d \<le> 2 * real_of_int r" using 2 by linarith
      then show ?thesis using D by (simp add: field_simps)
    qed
    moreover have "real_of_int r / real_of_int d \<le> 1" using r D by simp
    ultimately show ?thesis by (simp add: e)
  next
    case 3
    then have "round_half_even n d = q \<or> round_half_even n d = q + 1"
      by (simp add: round_half_even_def q_def r_def Let_def)
    moreover have h: "real_of_int n / real_of_int d = real_of_int q + 1 / 2"
    proof -
      have "real_of_int d = 2 * real_of_int r" using 3 by simp
      then have "real_of_int r / real_of_int d = 1 / 2" using D by simp
      then show ?thesis using e by linarith
    qed
    ultimately show ?thesis
    proof (elim disjE)
      assume "round_half_even n d = q"
      then show ?thesis unfolding h by simp
    next
      assume "round_half_even n d = q + 1"
      then show ?thesis unfolding h by simp
    qed
  qed
qed

lemma round_half_even_exact:
  assumes "0 < d" "d dvd n"
  shows "round_half_even n d = n div d"
  using assms by (simp add: round_half_even_def Let_def mod_eq_0_iff_dvd)

lemma sgn_times_abs_real:
  assumes "n \<noteq> 0"
  shows "\<bar>real_of_int (sgn n * m) - real_of_int n * x\<bar> = \<bar>real_of_int m - real_of_int \<bar>n\<bar> * x\<bar>"
proof (cases "0 < n")
  case True
  then show ?thesis by simp
next
  case False
  then have "n < 0" using assms by simp
  then have "real_of_int (sgn n * m) - real_of_int n * x
               = - (real_of_int m - real_of_int \<bar>n\<bar> * x)"
    by simp
  then show ?thesis by (simp only: abs_minus_cancel)
qed

lemma two_powr_numeral: "2 powr 53 = (2::real) ^ 53" "2 powr 52 = (2::real) ^ 52"
  using powr_realpow[of 2 53] powr_realpow[of 2 52] by simp_all

lemma double_of_int_small:
  assumes "\<bar>n\<bar> \<le> 2 ^ 53"
  shows "double_of_int n = n"
proof (cases "n = 0")
  case True
  then show ?thesis by (simp add: double_of_int_def round_half_even_def bit_length_0)
next
  case False
  define a where "a = \<bar>n\<bar>"
  define L where "L = bit_length (nat a)"
  have a: "0 < a" "a \<le> 2 ^ 53" using False assms by (simp_all add: a_def)
  have sg: "sgn n * a = n" by (simp add: a_def mult_sgn_abs)
  have lo: "2 powr (real L - 1) \<le> real_of_int a"
    using bit_length_real(1)[OF a(1)] by (simp add: L_def)
  have "real_of_int a \<le> 2 powr 53"
    using a(2) by (simp only: two_powr_numeral) (metis of_int_le_iff of_int_numeral of_int_power)
  then have "2 powr (real L - 1) \<le> 2 powr 53" using lo by linarith
  then have L54: "real L - 1 \<le> 53"
    by (rule powr_le_cancel_iff[of 2, THEN iffD1, rotated]) simp
  show ?thesis
  proof (cases "L \<le> 53")
    case True
    then have "round_half_even a (2 ^ (L - 53)) * 2 ^ (L - 53) = a"
      by (simp add: round_half_even_exact)
    then show ?thesis
      using sg by (simp add: double_of_int_def Let_def a_def[symmetric] L_def[symmetric])
  next
    case False
    then have L: "L = 54" using L54 by linarith
    have "2 powr 53 \<le> real_of_int a" using lo by (simp add: L)
    then have "real_of_int ((2::int) ^ 53) \<le> real_of_int a" by (simp only: two_powr_numeral) simp
    then have "2 ^ 53 \<le> a" by (simp only: of_int_le_iff)
    then have "a = 2 ^ 53" using a(2) by linarith
    then have "round_half_even a (2 ^ (L - 53)) * 2 ^ (L - 53) = a"
      by (simp add: L round_half_even_def)
    then show ?thesis
      using sg by (simp add: double_of_int_def Let_def a_def[symmetric] L_def[symmetric])
  qed
qed

lemma double_of_int_error:
  "\<bar>real_of_int (double_of_int n) - real_of_int n\<bar> \<le> \<bar>real_of_int n\<bar> / 2 ^ 53"
proof (cases "\<bar>n\<bar> \<le> 2 ^ 53")
  case True
  then show ?thesis by (simp add: double_of_int_small)
next
  case False
  define a where "a = \<bar>n\<bar>"
  define L where "L = bit_length (nat a)"
  define k where "k = L - 53"
  define M where "M = round_half_even a (2 ^ k)"
  define A where "A = real_of_int a"
  have a: "2 ^ 53 < a" using False by (simp add: a_def)
  have a0: "0 < a" using a by (rule less_trans[rotated]) simp
  have n0: "n \<noteq> 0" using a0 by (auto simp: a_def)
  have lo: "2 powr (real L - 1) \<le> A" and hi: "A < 2 powr real L"
    using bit_length_real[OF a0] by (simp_all add: L_def A_def)
  have "real_of_int ((2::int) ^ 53) < A" unfolding A_def using a by (simp only: of_int_less_iff)
  then have "2 powr 53 < A" by (simp only: two_powr_numeral) simp
  then have "2 powr 53 < 2 powr real L" using hi by linarith
  then have "53 < real L"
    by (rule powr_less_cancel_iff[of 2, THEN iffD1, rotated]) simp
  then have L: "53 < L" by simp
  then have Lk: "L - 1 = k + 52" by (simp add: k_def)
  have "real L - 1 = real (L - 1)" using L by simp
  then have "2 powr (real L - 1) = (2::real) ^ (k + 52)"
    by (simp only: Lk powr_realpow[of 2, simplified])
  then have lo': "2 ^ k * 2 ^ 52 \<le> A" using lo by (simp add: power_add)
  have "\<bar>real_of_int M - real_of_int a / real_of_int (2 ^ k)\<bar> \<le> 1 / 2"
    unfolding M_def by (rule round_half_even_error) simp
  then have "\<bar>real_of_int M - A / 2 ^ k\<bar> \<le> 1 / 2" by (simp add: A_def)
  then have "\<bar>real_of_int M - A / 2 ^ k\<bar> * 2 ^ k \<le> 1 / 2 * 2 ^ k"
    by (intro mult_right_mono) simp_all
  moreover have "\<bar>real_of_int M - A / 2 ^ k\<bar> * 2 ^ k = \<bar>real_of_int M * 2 ^ k - A\<bar>"
  proof -
    have "\<bar>real_of_int M - A / 2 ^ k\<bar> * 2 ^ k = \<bar>(real_of_int M - A / 2 ^ k) * 2 ^ k\<bar>"
      by (simp add: abs_mult)
    also have "(real_of_int M - A / 2 ^ k) * 2 ^ k = real_of_int M * 2 ^ k - A"
      by (simp add: field_simps)
    finally show ?thesis .
  qed
  ultimately have e1: "\<bar>real_of_int M * 2 ^ k - A\<bar> \<le> 2 ^ k / 2" by simp
  have e2: "2 ^ k / 2 \<le> A / 2 ^ 53" using lo' by (simp add: field_simps)
  have "double_of_int n = sgn n * (M * 2 ^ k)"
    by (simp add: double_of_int_def Let_def a_def[symmetric] L_def[symmetric] k_def[symmetric]
        M_def[symmetric])
  then have "\<bar>real_of_int (double_of_int n) - real_of_int n\<bar>
               = \<bar>real_of_int (M * 2 ^ k) - real_of_int \<bar>n\<bar> * 1\<bar>"
    using sgn_times_abs_real[OF n0, of "M * 2 ^ k" 1] by simp
  also have "\<dots> = \<bar>real_of_int M * 2 ^ k - A\<bar>" by (simp add: A_def a_def)
  also have "\<dots> \<le> A / 2 ^ 53" using e1 e2 by linarith
  also have "A = \<bar>real_of_int n\<bar>" by (simp add: A_def a_def)
  finally show ?thesis .
qed

lemma abs_scaled_diff:
  fixes m x c :: real
  assumes "0 < c"
  shows "\<bar>m / c - x\<bar> = \<bar>m - x * c\<bar> / c" and "\<bar>m * c - x\<bar> = \<bar>m - x / c\<bar> * c"
proof -
  have "m / c - x = (m - x * c) / c" using assms by (simp add: field_simps)
  then show "\<bar>m / c - x\<bar> = \<bar>m - x * c\<bar> / c" using assms by (simp add: abs_divide)
  have "m * c - x = (m - x / c) * c" using assms by (simp add: field_simps)
  then show "\<bar>m * c - x\<bar> = \<bar>m - x / c\<bar> * c" using assms by (simp add: abs_mult)
qed

lemma double_quot_error:
  assumes "0 < q"
  shows "\<bar>double_quot p q - real_of_int p / real_of_int q\<bar>
           \<le> \<bar>real_of_int p / real_of_int q\<bar> / 2 ^ 53"
proof (cases "p = 0")
  case True
  then show ?thesis by (simp add: double_quot_def)
next
  case False
  define a where "a = \<bar>p\<bar>"
  define s where "s = 52 - quot_exponent a q"
  define X where "X = real_of_int a / real_of_int q"
  define Q where "Q = real_of_int q"
  have a0: "0 < a" using False by (simp add: a_def)
  have Q: "0 < Q" using assms by (simp add: Q_def)
  have X0: "0 < X" using a0 assms by (simp add: X_def)
  have absX: "\<bar>real_of_int p / real_of_int q\<bar> = X"
    using assms by (simp add: X_def a_def abs_divide)
  have E: "2 powr (52 - real_of_int s) \<le> X"
    using quot_exponent_bounds(1)[OF a0 assms] by (simp add: s_def X_def)
  show ?thesis
  proof (cases "0 \<le> s")
    case True
    define S where "S = nat s"
    define M where "M = round_half_even (a * 2 ^ S) q"
    have sS: "real_of_int s = real S" using True by (simp add: S_def)
    have dq: "double_quot p q = real_of_int (sgn p * M) / 2 ^ S"
      unfolding double_quot_def Let_def a_def[symmetric] s_def[symmetric]
      using False True by (simp add: S_def M_def)
    have "2 powr (52 - real S) = 2 powr 52 / 2 powr real S" by (simp only: powr_diff)
    also have "\<dots> = 2 ^ 52 / 2 ^ S"
      by (simp only: two_powr_numeral powr_realpow[of 2, simplified])
    finally have lo: "2 ^ 52 / 2 ^ S \<le> X" using E by (simp only: sS)
    have "\<bar>real_of_int M - real_of_int (a * 2 ^ S) / real_of_int q\<bar> \<le> 1 / 2"
      unfolding M_def using assms by (rule round_half_even_error)
    moreover have "real_of_int (a * 2 ^ S) / real_of_int q = X * 2 ^ S"
      by (simp add: X_def)
    ultimately have r: "\<bar>real_of_int M - X * 2 ^ S\<bar> \<le> 1 / 2" by simp
    have "\<bar>double_quot p q - real_of_int p / real_of_int q\<bar>
            = \<bar>real_of_int (sgn p * M) - real_of_int p * (2 ^ S / Q)\<bar> / 2 ^ S"
      using abs_scaled_diff(1)[of "2 ^ S" "real_of_int (sgn p * M)" "real_of_int p / Q"]
      by (simp add: dq Q_def)
    also have "\<dots> = \<bar>real_of_int M - real_of_int a * (2 ^ S / Q)\<bar> / 2 ^ S"
      using sgn_times_abs_real[OF False, of M "2 ^ S / Q"] by (simp add: a_def)
    also have "real_of_int a * (2 ^ S / Q) = X * 2 ^ S" by (simp add: X_def Q_def)
    also have "\<bar>real_of_int M - X * 2 ^ S\<bar> / 2 ^ S \<le> (1 / 2) / 2 ^ S"
      using r by (intro divide_right_mono) simp_all
    also have "(1 / 2) / 2 ^ S = ((2::real) ^ 52 / 2 ^ S) / 2 ^ 53" by simp
    also have "\<dots> \<le> X / 2 ^ 53" using lo by (intro divide_right_mono) simp_all
    finally show ?thesis by (simp only: absX)
  next
    case False
    note neg = this
    define T where "T = nat (- s)"
    define M where "M = round_half_even a (q * 2 ^ T)"
    have sT: "real_of_int s = - real T" using neg by (simp add: T_def)
    have dq: "double_quot p q = real_of_int (sgn p * M) * 2 ^ T"
      unfolding double_quot_def Let_def a_def[symmetric] s_def[symmetric]
      using \<open>p \<noteq> 0\<close> neg by (simp add: T_def M_def)
    have "2 powr (52 + real T) = 2 powr 52 * 2 powr real T" by (simp only: powr_add)
    also have "\<dots> = 2 ^ 52 * 2 ^ T"
      by (simp only: two_powr_numeral powr_realpow[of 2, simplified])
    finally have lo: "2 ^ 52 * 2 ^ T \<le> X" using E by (simp add: sT)
    have "\<bar>real_of_int M - real_of_int a / real_of_int (q * 2 ^ T)\<bar> \<le> 1 / 2"
      unfolding M_def using assms by (intro round_half_even_error) simp
    moreover have "real_of_int a / real_of_int (q * 2 ^ T) = X / 2 ^ T"
      by (simp add: X_def)
    ultimately have r: "\<bar>real_of_int M - X / 2 ^ T\<bar> \<le> 1 / 2" by simp
    have "\<bar>double_quot p q - real_of_int p / real_of_int q\<bar>
            = \<bar>real_of_int (sgn p * M) * 2 ^ T - real_of_int p / Q\<bar>"
      by (simp add: dq Q_def)
    also have "\<dots> = \<bar>real_of_int (sgn p * M) - real_of_int p / Q / 2 ^ T\<bar> * 2 ^ T"
      by (rule abs_scaled_diff(2)) simp
    also have "\<dots> = \<bar>real_of_int M - real_of_int a * (1 / Q / 2 ^ T)\<bar> * 2 ^ T"
      using sgn_times_abs_real[OF \<open>p \<noteq> 0\<close>, of M "1 / Q / 2 ^ T"] by (simp add: a_def)
    also have "real_of_int a * (1 / Q / 2 ^ T) = X / 2 ^ T" by (simp add: X_def Q_def)
    also have "\<bar>real_of_int M - X / 2 ^ T\<bar> * 2 ^ T \<le> (1 / 2) * 2 ^ T"
      using r by (intro mult_right_mono) simp_all
    also have "(1 / 2) * 2 ^ T = ((2::real) ^ 52 * 2 ^ T) / 2 ^ 53" by simp
    also have "\<dots> \<le> X / 2 ^ 53" using lo by (intro divide_right_mono) simp_all
    finally show ?thesis by (simp only: absX)
  qed
qed

lemma int_div_of_mult:
  fixes p q w :: int
  assumes "0 < q" "p = w * q"
  shows "p div q = w"
  using assms by force

lemma double_quot_exact:
  assumes "0 < q" "q dvd p" "\<bar>p div q\<bar> \<le> 2 ^ 53"
  shows "double_quot p q = real_of_int (p div q)"
proof (cases "p = 0")
  case True
  then show ?thesis by (simp add: double_quot_def)
next
  case False
  define a where "a = \<bar>p\<bar>"
  define v where "v = a div q"
  define s where "s = 52 - quot_exponent a q"
  have a0: "0 < a" using False by (simp add: a_def)
  have qa: "q dvd a" using assms(2) by (simp add: a_def)
  then have av: "a = v * q" by (simp add: v_def)
  have pv: "p div q = sgn p * v"
  proof -
    have "p = sgn p * a" by (simp add: a_def mult_sgn_abs)
    then have "p = (sgn p * v) * q" using av by (simp add: mult.assoc)
    with assms(1) show ?thesis by (rule int_div_of_mult)
  qed
  have "\<bar>p div q\<bar> = v" unfolding v_def a_def using abs_div assms(1,2) by force
  then have v53: "v \<le> 2 ^ 53" using assms(3) by simp
  have X: "real_of_int a / real_of_int q = real_of_int v" using assms(1) by (simp add: av)
  have E: "2 powr (52 - real_of_int s) \<le> real_of_int v"
    using quot_exponent_bounds(1)[OF a0 assms(1)] by (simp add: s_def X)
  have "real_of_int v \<le> real_of_int (2 ^ 53)" using v53 by (simp only: of_int_le_iff)
  then have vr: "real_of_int v \<le> 2 powr 53" by (simp only: two_powr_numeral) simp
  then have "2 powr (52 - real_of_int s) \<le> 2 powr 53" using E by linarith
  then have "52 - real_of_int s \<le> 53"
    by (rule powr_le_cancel_iff[of 2, THEN iffD1, rotated]) simp
  then have s1: "- 1 \<le> s" by linarith
  show ?thesis
  proof (cases "0 \<le> s")
    case True
    have d: "q dvd a * 2 ^ nat s" using qa by simp
    have "a * 2 ^ nat s = (v * 2 ^ nat s) * q" by (simp add: av)
    with assms(1) have "a * 2 ^ nat s div q = v * 2 ^ nat s" by (rule int_div_of_mult)
    then have "round_half_even (a * 2 ^ nat s) q = v * 2 ^ nat s"
      using assms(1) d by (simp add: round_half_even_exact)
    moreover have "double_quot p q
        = real_of_int (sgn p * round_half_even (a * 2 ^ nat s) q) / 2 ^ nat s"
      unfolding double_quot_def Let_def a_def[symmetric] s_def[symmetric]
      using False True by simp
    ultimately show ?thesis by (simp add: pv)
  next
    case neg: False
    then have s: "s = - 1" using s1 by linarith
    have "2 powr (52 - real_of_int s) = 2 powr 53" by (simp add: s)
    then have "2 powr 53 \<le> real_of_int v" using E by simp
    then have "real_of_int ((2::int) ^ 53) \<le> real_of_int v"
      by (simp only: two_powr_numeral) simp
    then have "2 ^ 53 \<le> v" by (simp only: of_int_le_iff)
    then have v: "v = 2 ^ 53" using v53 by linarith
    have a2: "a = 2 ^ 52 * (q * 2)" by (simp add: av v)
    have q2: "0 < q * 2" using assms(1) by simp
    have "a div (q * 2) = 2 ^ 52" using q2 a2 by (rule int_div_of_mult)
    moreover have "q * 2 dvd a" using a2 by simp
    ultimately have "round_half_even a (q * 2 ^ nat (- s)) = 2 ^ 52"
      using q2 by (simp add: s round_half_even_exact)
    moreover have "double_quot p q
        = real_of_int (sgn p * round_half_even a (q * 2 ^ nat (- s))) * 2 ^ nat (- s)"
      unfolding double_quot_def Let_def a_def[symmetric] s_def[symmetric]
      using False neg by simp
    ultimately show ?thesis by (simp add: pv v s)
  qed
qed

lemma rounded_quotient_error:
  assumes "0 < c"
  shows "\<bar>double_quot (double_of_int D) c - real_of_int D / real_of_int c\<bar>
           \<le> \<bar>real_of_int D / real_of_int c\<bar> / 2 ^ 51"
proof -
  define u where "u = 1 / (2::real) ^ 53"
  define C where "C = real_of_int c"
  define x1 where "x1 = real_of_int (double_of_int D)"
  define x where "x = double_quot (double_of_int D) c"
  define Y where "Y = \<bar>real_of_int D\<bar> / C"
  have C: "0 < C" using assms by (simp add: C_def)
  have u: "0 \<le> u" "u \<le> 1" by (simp_all add: u_def)
  have Y0: "0 \<le> Y" using C by (simp add: Y_def)
  have e1: "\<bar>x1 - real_of_int D\<bar> \<le> u * \<bar>real_of_int D\<bar>"
    using double_of_int_error[of D] by (simp add: x1_def u_def)
  have e2: "\<bar>x - x1 / C\<bar> \<le> u * \<bar>x1 / C\<bar>"
    using double_quot_error[OF assms, of "double_of_int D"] by (simp add: x_def x1_def u_def C_def)
  have d1: "\<bar>x1 / C - real_of_int D / C\<bar> \<le> u * Y"
  proof -
    have "x1 / C - real_of_int D / C = (x1 - real_of_int D) / C" by (simp add: diff_divide_distrib)
    then have "\<bar>x1 / C - real_of_int D / C\<bar> = \<bar>x1 - real_of_int D\<bar> / C"
      using C by (simp add: abs_divide)
    also have "\<dots> \<le> (u * \<bar>real_of_int D\<bar>) / C" using e1 C by (intro divide_right_mono) simp_all
    finally show ?thesis by (simp add: Y_def)
  qed
  have absY: "\<bar>real_of_int D / C\<bar> = Y" using C by (simp add: Y_def abs_divide)
  have x1Y: "\<bar>x1 / C\<bar> \<le> Y + u * Y"
  proof -
    have "\<bar>x1 / C\<bar> \<le> \<bar>real_of_int D / C\<bar> + \<bar>x1 / C - real_of_int D / C\<bar>" by linarith
    then show ?thesis using d1 absY by linarith
  qed
  have "u * \<bar>x1 / C\<bar> \<le> u * (Y + u * Y)" using x1Y u(1) by (rule mult_left_mono)
  also have "\<dots> \<le> u * (Y + 1 * Y)"
    using u Y0 by (intro mult_left_mono add_left_mono mult_right_mono) simp_all
  finally have e3: "u * \<bar>x1 / C\<bar> \<le> 2 * u * Y" by simp
  have "\<bar>x - real_of_int D / C\<bar> \<le> \<bar>x - x1 / C\<bar> + \<bar>x1 / C - real_of_int D / C\<bar>" by linarith
  also have "\<dots> \<le> 2 * u * Y + u * Y" using e2 e3 d1 by linarith
  also have "\<dots> \<le> 4 * u * Y" using u(1) Y0 by (simp add: mult_nonneg_nonneg)
  also have "4 * u * Y = Y / 2 ^ 51" by (simp add: u_def)
  finally show ?thesis by (simp only: x_def C_def absY[symmetric, unfolded C_def])
qed

lemma double_quot_tenth:
  "double_quot 259200000 2592000000 = 3602879701896397 / 36028797018963968"
  by (simp add: double_quot_def quot_exponent_def round_half_even_def bit_length.simps Let_def)

lemma double_of_int_tie:
  "double_of_int 17279999999999999 = 17280000000000000"
  by (simp add: double_of_int_def round_half_even_def bit_length.simps Let_def)

lemma msPerUnit_pos: "0 < msPerUnit unit"
  by (cases unit) (simp_all add: msPerUnit_def)

lemma diffTime_of_time_values:
  assumes "toDate host a = Inr msA" "toDate host b = Inr msB"
  shows "diffTime host a b unit = Inr (double_quot (double_of_int (msA - msB)) (msPerUnit unit))"
  using assms by (simp add: diffTime_def)

section \<open>diffTime\<close>

text \<open>
  The largest and nearly the smallest time value, in milliseconds: the difference
  17279999999999999 is odd and above 2^53, and \<open>diffTime\<close> returns
  17280000000000000, not the difference divided by 1.
\<close>

theorem diffTime_rounds_example:
  "diffTime (\<lambda>s. None) (NumIn (Some 8640000000000000)) (NumIn (Some (- 8639999999999999)))
       Milliseconds = Inr 17280000000000000
   \<and> real_of_int (8640000000000000 - (- 8639999999999999)) / real_of_int (msPerUnit Milliseconds)
       = 17279999999999999"
proof -
  have a: "toDate (\<lambda>s. None) (NumIn (Some 8640000000000000)) = Inr 8640000000000000"
    by (simp add: toDate_def new_Date_def TimeClip_numeral)
  have b: "toDate (\<lambda>s. None) (NumIn (Some (- 8639999999999999))) = Inr (- 8639999999999999)"
    by (simp add: toDate_def new_Date_def TimeClip_numeral)
  have "double_quot 17280000000000000 1 = 17280000000000000"
    by (simp add: double_quot_def quot_exponent_def round_half_even_def bit_length.simps Let_def)
  then show ?thesis
    by (simp add: diffTime_of_time_values[OF a b] double_of_int_tie msPerUnit_def)
qed

text \<open>
  C9, as the code has it. \<open>diffTime\<close> subtracts and divides in doubles: its result is
  the double nearest to the quotient of the double nearest to \<open>a\<close> minus \<open>b\<close> by the
  constant of the unit. That is within the fraction 2^-51 of the exact quotient, and
  it is the exact quotient whenever the difference is at most 2^53 in magnitude and
  the constant divides it. The constant of a month is that of 30 days and the constant
  of a year is that of 365 days. From 2025-01-15 to 2025-01-18 it counts 3 days.
\<close>

theorem diffTime_fixed_units:
  "msPerUnit Months = 30 * msPerUnit Days
   \<and> msPerUnit Years = 365 * msPerUnit Days
   \<and> (toDate host a = Inr msA \<and> toDate host b = Inr msB \<longrightarrow>
        diffTime host a b unit
          = Inr (double_quot (double_of_int (msA - msB)) (msPerUnit unit))
        \<and> \<bar>double_quot (double_of_int (msA - msB)) (msPerUnit unit)
             - real_of_int (msA - msB) / real_of_int (msPerUnit unit)\<bar>
            \<le> \<bar>real_of_int (msA - msB) / real_of_int (msPerUnit unit)\<bar> / 2 ^ 51
        \<and> (\<bar>msA - msB\<bar> \<le> 2 ^ 53 \<and> msPerUnit unit dvd msA - msB \<longrightarrow>
             diffTime host a b unit = Inr (real_of_int ((msA - msB) div msPerUnit unit))))
   \<and> diffTime host (StrIn ''2025-01-18'') (StrIn ''2025-01-15'') Days = Inr 3"
proof (intro conjI impI)
  show "msPerUnit Months = 30 * msPerUnit Days" by (simp add: msPerUnit_def)
  show "msPerUnit Years = 365 * msPerUnit Days" by (simp add: msPerUnit_def)
next
  assume "toDate host a = Inr msA \<and> toDate host b = Inr msB"
  then show "diffTime host a b unit
      = Inr (double_quot (double_of_int (msA - msB)) (msPerUnit unit))"
    by (simp add: diffTime_of_time_values)
next
  show "\<bar>double_quot (double_of_int (msA - msB)) (msPerUnit unit)
             - real_of_int (msA - msB) / real_of_int (msPerUnit unit)\<bar>
            \<le> \<bar>real_of_int (msA - msB) / real_of_int (msPerUnit unit)\<bar> / 2 ^ 51"
    using msPerUnit_pos by (rule rounded_quotient_error)
next
  assume t: "toDate host a = Inr msA \<and> toDate host b = Inr msB"
    and e: "\<bar>msA - msB\<bar> \<le> 2 ^ 53 \<and> msPerUnit unit dvd msA - msB"
  have c: "0 < msPerUnit unit" by (rule msPerUnit_pos)
  have "\<bar>(msA - msB) div msPerUnit unit\<bar> = \<bar>msA - msB\<bar> div msPerUnit unit"
    using abs_div c e by force
  also have "\<dots> \<le> \<bar>msA - msB\<bar> div 1" using c by (intro zdiv_mono2) simp_all
  also have "\<dots> = \<bar>msA - msB\<bar>" by simp
  finally have "\<bar>(msA - msB) div msPerUnit unit\<bar> \<le> 2 ^ 53" using e by linarith
  then have "double_quot (msA - msB) (msPerUnit unit)
               = real_of_int ((msA - msB) div msPerUnit unit)"
    using c e by (intro double_quot_exact) simp_all
  then show "diffTime host a b unit = Inr (real_of_int ((msA - msB) div msPerUnit unit))"
    using t e by (simp add: diffTime_of_time_values double_of_int_small)
next
  have "\<bar>(1737158400000::int) - 1736899200000\<bar> \<le> 2 ^ 53" by simp
  moreover have "(86400000::int) dvd 1737158400000 - 1736899200000" by simp
  ultimately have "double_quot (1737158400000 - 1736899200000) 86400000
      = real_of_int ((1737158400000 - 1736899200000) div 86400000)"
    by (intro double_quot_exact) simp_all
  then show "diffTime host (StrIn ''2025-01-18'') (StrIn ''2025-01-15'') Days = Inr 3"
    by (simp add: diffTime_of_time_values[OF toDate_2025_01_18 toDate_2025_01_15]
        double_of_int_small msPerUnit_def)
qed

text \<open>
  The same two dates: in months the result is the double nearest to one tenth, and in
  hours, where the constant divides the difference, it is 72.
\<close>

theorem diffTime_fixed_units_witness:
  "toDate (\<lambda>s. None) (StrIn ''2025-01-18'') = Inr 1737158400000
   \<and> toDate (\<lambda>s. None) (StrIn ''2025-01-15'') = Inr 1736899200000
   \<and> diffTime (\<lambda>s. None) (StrIn ''2025-01-18'') (StrIn ''2025-01-15'') Months
       = Inr (3602879701896397 / 36028797018963968)
   \<and> \<bar>(1737158400000::int) - 1736899200000\<bar> \<le> 2 ^ 53
   \<and> msPerUnit Hours dvd 1737158400000 - 1736899200000
   \<and> diffTime (\<lambda>s. None) (StrIn ''2025-01-18'') (StrIn ''2025-01-15'') Hours = Inr 72"
proof -
  note ta = toDate_2025_01_18[of "\<lambda>s. None"]
  note tb = toDate_2025_01_15[of "\<lambda>s. None"]
  have h: "\<bar>(1737158400000::int) - 1736899200000\<bar> \<le> 2 ^ 53
           \<and> msPerUnit Hours dvd 1737158400000 - 1736899200000"
    by (simp add: msPerUnit_def)
  have m: "diffTime (\<lambda>s. None) (StrIn ''2025-01-18'') (StrIn ''2025-01-15'') Months
       = Inr (double_quot (double_of_int (1737158400000 - 1736899200000)) (msPerUnit Months))"
    using diffTime_fixed_units[of "\<lambda>s. None" "StrIn ''2025-01-18''" 1737158400000
        "StrIn ''2025-01-15''" 1736899200000 Months] ta tb
    by blast
  have "double_of_int (1737158400000 - 1736899200000) = 259200000"
    by (simp add: double_of_int_small)
  then have m': "diffTime (\<lambda>s. None) (StrIn ''2025-01-18'') (StrIn ''2025-01-15'') Months
       = Inr (3602879701896397 / 36028797018963968)"
    using m by (simp add: msPerUnit_def double_quot_tenth)
  have "diffTime (\<lambda>s. None) (StrIn ''2025-01-18'') (StrIn ''2025-01-15'') Hours
       = Inr (real_of_int ((1737158400000 - 1736899200000) div msPerUnit Hours))"
    using diffTime_fixed_units[of "\<lambda>s. None" "StrIn ''2025-01-18''" 1737158400000
        "StrIn ''2025-01-15''" 1736899200000 Hours] ta tb h
    by blast
  then have k: "diffTime (\<lambda>s. None) (StrIn ''2025-01-18'') (StrIn ''2025-01-15'') Hours = Inr 72"
    by (simp add: msPerUnit_def)
  show ?thesis using ta tb m' h k by blast
qed

section \<open>The toast service: active set\<close>

lemma toasts_subject_next: "toasts (subject_next v s) = v"
  by (simp add: subject_next_def)

lemma toasts_show_toast:
  "toasts (snd (show_toast msg ty dur rnd s)) =
     toasts s @ [\<lparr>toast_id = generateId (clock s) rnd, message = msg, toast_type = ty,
                  duration = (case dur of Some d \<Rightarrow> d | None \<Rightarrow> DEFAULT_DURATION ty),
                  createdAt = toISOString (clock s)\<rparr>]"
  by (simp add: show_toast_def Let_def subject_next_def getValue_def start_timer_def)

text \<open>
  C7. Whatever the state and the arguments, \<open>show\<close> leaves the active set with exactly
  one more entry than before; the entries that were there keep their places and their
  order, and the new entry is the last one.
\<close>

theorem show_appends_one:
  "length (toasts (snd (show_toast msg ty dur rnd s))) = length (toasts s) + 1
   \<and> butlast (toasts (snd (show_toast msg ty dur rnd s))) = toasts s
   \<and> message (last (toasts (snd (show_toast msg ty dur rnd s)))) = msg
   \<and> toast_type (last (toasts (snd (show_toast msg ty dur rnd s)))) = ty
   \<and> toast_id (last (toasts (snd (show_toast msg ty dur rnd s)))) = generateId (clock s) rnd"
  by (simp add: toasts_show_toast)

section \<open>Generated ids\<close>

lemma digit_char_not_minus: "digit_char n \<noteq> CHR ''-''"
proof
  assume "digit_char n = CHR ''-''"
  then have "digit_of (digit_char n) = None" by (simp add: digit_of_def)
  then show False by (simp add: digit_of_digit_char)
qed

lemma digits10_no_minus: "CHR ''-'' \<notin> set (digits10 n)"
proof (induction n rule: digits10.induct)
  case (1 n)
  show ?case
  proof (cases "n < 10")
    case True
    then show ?thesis
      using digit_char_not_minus[of n] by (subst digits10.simps) auto
  next
    case False
    then show ?thesis
      using 1 digit_char_not_minus[of "n mod 10"] by (subst digits10.simps) auto
  qed
qed

lemma digits10_unfold_small: "n < 10 \<Longrightarrow> digits10 n = [digit_char n]"
  by (subst digits10.simps) simp

lemma digits10_unfold_large:
  "\<not> n < 10 \<Longrightarrow> digits10 n = digits10 (n div 10) @ [digit_char (n mod 10)]"
  by (subst digits10.simps) simp

lemma digits10_not_Nil: "digits10 n \<noteq> []"
  by (cases "n < 10") (simp_all add: digits10_unfold_small digits10_unfold_large)

lemma digits_val_digits10: "digits_val 0 (digits10 n) = Some n"
proof (induction n rule: digits10.induct)
  case (1 n)
  show ?case
  proof (cases "n < 10")
    case True
    then show ?thesis
      by (simp add: digits10_unfold_small digit_of_digit_char)
  next
    case False
    then have "digits_val 0 (digits10 (n div 10)) = Some (n div 10)" by (rule 1)
    then show ?thesis
      using False by (simp add: digits10_unfold_large digits_val_append digit_of_digit_char)
  qed
qed

lemma digits10_inj:
  assumes "digits10 m = digits10 n"
  shows "m = n"
proof -
  have "Some m = digits_val 0 (digits10 m)" by (simp only: digits_val_digits10)
  also have "\<dots> = digits_val 0 (digits10 n)" by (simp only: assms)
  also have "\<dots> = Some n" by (simp only: digits_val_digits10)
  finally show ?thesis by simp
qed

lemma takeWhile_digits10:
  "takeWhile (\<lambda>c. c \<noteq> CHR ''-'') (digits10 n @ CHR ''-'' # r) = digits10 n"
proof -
  have "takeWhile (\<lambda>c. c \<noteq> CHR ''-'') (digits10 n @ CHR ''-'' # r)
          = digits10 n @ takeWhile (\<lambda>c. c \<noteq> CHR ''-'') (CHR ''-'' # r)"
    by (rule takeWhile_append2) (use digits10_no_minus[of n] in auto)
  then show ?thesis by simp
qed

lemma digits10_prefix_inj:
  assumes "digits10 m @ CHR ''-'' # r = digits10 n @ CHR ''-'' # r'"
  shows "m = n"
proof -
  have "digits10 m = digits10 n"
    using takeWhile_digits10[of m r] takeWhile_digits10[of n r'] assms by simp
  then show ?thesis by (rule digits10_inj)
qed

lemma digits10_prefix_not_minus:
  "digits10 m @ CHR ''-'' # r \<noteq> CHR ''-'' # xs"
proof
  assume "digits10 m @ CHR ''-'' # r = CHR ''-'' # xs"
  then have "takeWhile (\<lambda>c. c \<noteq> CHR ''-'') (digits10 m @ CHR ''-'' # r) = []" by simp
  then show False using takeWhile_digits10[of m r] digits10_not_Nil[of m] by simp
qed

lemma Number_toString_prefix_inj:
  assumes "Number_toString a @ CHR ''-'' # r = Number_toString b @ CHR ''-'' # r'"
  shows "a = b"
proof (cases "a < 0")
  case True
  show ?thesis
  proof (cases "b < 0")
    case b: True
    have "digits10 (nat (- a)) @ CHR ''-'' # r = digits10 (nat (- b)) @ CHR ''-'' # r'"
      using assms True b by (simp add: Number_toString_def)
    then have "nat (- a) = nat (- b)" by (rule digits10_prefix_inj)
    then show ?thesis using True b by simp
  next
    case b: False
    have "digits10 (nat b) @ CHR ''-'' # r' = CHR ''-'' # (digits10 (nat (- a)) @ CHR ''-'' # r)"
      using assms True b by (simp add: Number_toString_def)
    then show ?thesis by (simp add: digits10_prefix_not_minus)
  qed
next
  case False
  show ?thesis
  proof (cases "b < 0")
    case b: True
    have "digits10 (nat a) @ CHR ''-'' # r = CHR ''-'' # (digits10 (nat (- b)) @ CHR ''-'' # r')"
      using assms False b by (simp add: Number_toString_def)
    then show ?thesis by (simp add: digits10_prefix_not_minus)
  next
    case b: False
    have "digits10 (nat a) @ CHR ''-'' # r = digits10 (nat b) @ CHR ''-'' # r'"
      using assms False b by (simp add: Number_toString_def)
    then have "nat a = nat b" by (rule digits10_prefix_inj)
    then show ?thesis using False b by simp
  qed
qed

lemma generateId_clock_inj:
  assumes "generateId a r = generateId b r'"
  shows "a = b"
  using assms Number_toString_prefix_inj[of a "slice 2 7 r" b "slice 2 7 r'"]
  by (simp add: generateId_def)


section \<open>Effect of each operation on the state\<close>

lemma dismiss_simps:
  "toasts (dismiss i s) = filter (\<lambda>t. toast_id t \<noteq> i) (toasts s)"
  "emitted (dismiss i s) = emitted s @ [filter (\<lambda>t. toast_id t \<noteq> i) (toasts s)]"
  "timers (dismiss i s) = timers s"
  "clock (dismiss i s) = clock s"
  by (simp_all add: dismiss_def subject_next_def getValue_def)

lemma dismissAll_simps:
  "toasts (dismissAll s) = []"
  "emitted (dismissAll s) = emitted s @ [[]]"
  "timers (dismissAll s) = timers s"
  "clock (dismissAll s) = clock s"
  by (simp_all add: dismissAll_def subject_next_def)

lemma timers_show_toast:
  "timers (snd (show_toast msg ty dur rnd s)) =
     (if 0 < (case dur of Some d \<Rightarrow> d | None \<Rightarrow> DEFAULT_DURATION ty)
      then timers s @ [(clock s + (case dur of Some d \<Rightarrow> d | None \<Rightarrow> DEFAULT_DURATION ty),
                        generateId (clock s) rnd)]
      else timers s)"
  by (simp add: show_toast_def Let_def subject_next_def getValue_def start_timer_def)

lemma clock_show_toast: "clock (snd (show_toast msg ty dur rnd s)) = clock s"
  by (simp add: show_toast_def Let_def subject_next_def getValue_def start_timer_def)

lemma emitted_show_toast:
  "emitted (snd (show_toast msg ty dur rnd s)) =
     emitted s @ [toasts (snd (show_toast msg ty dur rnd s))]"
  by (simp add: show_toast_def Let_def subject_next_def getValue_def start_timer_def)

lemma toasts_fire:
  "toasts (foldl (\<lambda>st p. dismiss (snd p) st) s ps) =
     filter (\<lambda>t. toast_id t \<notin> snd ` set ps) (toasts s)"
proof (induction ps arbitrary: s)
  case Nil
  show ?case by simp
next
  case (Cons p ps)
  have "filter (\<lambda>t. toast_id t \<notin> snd ` set ps) (filter (\<lambda>t. toast_id t \<noteq> snd p) (toasts s))
          = filter (\<lambda>t. toast_id t \<notin> snd ` set (p # ps)) (toasts s)"
    by (auto intro: filter_cong)
  then show ?case by (simp add: Cons.IH dismiss_simps)
qed

lemma timers_fire: "timers (foldl (\<lambda>st p. dismiss (snd p) st) s ps) = timers s"
  by (induction ps arbitrary: s) (simp_all add: dismiss_simps)

lemma clock_fire: "clock (foldl (\<lambda>st p. dismiss (snd p) st) s ps) = clock s"
  by (induction ps arbitrary: s) (simp_all add: dismiss_simps)

lemma set_due_timers: "set (due_timers t ts) = {p \<in> set ts. fst p \<le> t}"
  by (auto simp: due_timers_def)

lemma elapse_simps:
  "toasts (elapse dt s) =
     filter (\<lambda>t. toast_id t \<notin> snd ` {p \<in> set (timers s). fst p \<le> clock s + int dt}) (toasts s)"
  "timers (elapse dt s) = filter (\<lambda>p. \<not> fst p \<le> clock s + int dt) (timers s)"
  "clock (elapse dt s) = clock s + int dt"
  by (simp_all add: elapse_def Let_def toasts_fire timers_fire clock_fire set_due_timers)


section \<open>What keeps a toast in the active set, and what removes it\<close>

lemma step_keeps_toast:
  assumes "t \<in> set (toasts s)" "toast_id t \<notin> snd ` set (timers s)"
    "e \<noteq> Dismiss (toast_id t)" "e \<noteq> DismissAll"
  shows "t \<in> set (toasts (step e s))"
proof (cases e)
  case (Show msg ty dur rnd)
  then show ?thesis using assms(1) by (simp add: toasts_show_toast)
next
  case (Dismiss i)
  then show ?thesis using assms(1,3) by (simp add: dismiss_simps)
next
  case DismissAll
  then show ?thesis using assms(4) by simp
next
  case (Elapse dt)
  then show ?thesis using assms(1,2) by (auto simp: elapse_simps)
qed

lemma run_keeps_toast:
  assumes "t \<in> set (toasts s)" "untargeted (toast_id t) es s"
  shows "t \<in> set (toasts (run es s))"
  using assms
proof (induction es arbitrary: s)
  case Nil
  then show ?case by simp
next
  case (Cons e es)
  then have "t \<in> set (toasts (step e s))" by (intro step_keeps_toast) simp_all
  moreover have "untargeted (toast_id t) es (step e s)" using Cons.prems(2) by simp
  ultimately show ?case using Cons.IH by simp
qed

lemma step_expiry:
  assumes "T \<le> clock s"
    and "(clock s < T + d \<and> (T + d, generateId T r) \<in> set (timers s))
         \<or> (T + d \<le> clock s \<and> generateId T r \<notin> toast_id ` set (toasts s))"
    and "0 < d"
  shows "T \<le> clock (step e s)
    \<and> ((clock (step e s) < T + d \<and> (T + d, generateId T r) \<in> set (timers (step e s)))
       \<or> (T + d \<le> clock (step e s) \<and> generateId T r \<notin> toast_id ` set (toasts (step e s))))"
proof (cases e)
  case (Show msg ty dur rnd)
  have "generateId (clock s) rnd \<noteq> generateId T r" if "T + d \<le> clock s"
    using that assms(3) generateId_clock_inj[of "clock s" rnd T r] by auto
  then show ?thesis
    using assms Show by (auto simp: toasts_show_toast timers_show_toast clock_show_toast)
next
  case (Dismiss i)
  then show ?thesis using assms by (auto simp: dismiss_simps)
next
  case DismissAll
  then show ?thesis using assms by (auto simp: dismissAll_simps)
next
  case (Elapse dt)
  show ?thesis
  proof (cases "clock s + int dt < T + d")
    case True
    then show ?thesis using assms Elapse by (auto simp: elapse_simps)
  next
    case False
    define due where "due = snd ` {p \<in> set (timers s). fst p \<le> clock s + int dt}"
    have kept: "toast_id t \<notin> due" if "t \<in> set (toasts (elapse dt s))" for t
      using that unfolding due_def by (simp add: elapse_simps)
    have old: "t \<in> set (toasts s)" if "t \<in> set (toasts (elapse dt s))" for t
      using that by (simp add: elapse_simps)
    have "generateId T r \<notin> toast_id ` set (toasts (elapse dt s))"
    proof (cases "clock s < T + d")
      case True
      then have "(T + d, generateId T r) \<in> {p \<in> set (timers s). fst p \<le> clock s + int dt}"
        using assms(2) False by auto
      then have "generateId T r \<in> due" unfolding due_def by force
      then show ?thesis using kept by auto
    next
      case False
      then have "generateId T r \<notin> toast_id ` set (toasts s)" using assms(2) by auto
      then show ?thesis using old by auto
    qed
    then show ?thesis using False assms(1) Elapse by (simp add: elapse_simps)
  qed
qed

lemma run_expiry:
  assumes "T \<le> clock s"
    and "(clock s < T + d \<and> (T + d, generateId T r) \<in> set (timers s))
         \<or> (T + d \<le> clock s \<and> generateId T r \<notin> toast_id ` set (toasts s))"
    and "0 < d"
  shows "T \<le> clock (run es s)
    \<and> ((clock (run es s) < T + d \<and> (T + d, generateId T r) \<in> set (timers (run es s)))
       \<or> (T + d \<le> clock (run es s) \<and> generateId T r \<notin> toast_id ` set (toasts (run es s))))"
  using assms(1,2)
proof (induction es arbitrary: s)
  case Nil
  then show ?case by simp
next
  case (Cons e es)
  have "T \<le> clock (step e s)
    \<and> ((clock (step e s) < T + d \<and> (T + d, generateId T r) \<in> set (timers (step e s)))
       \<or> (T + d \<le> clock (step e s) \<and> generateId T r \<notin> toast_id ` set (toasts (step e s))))"
    using Cons.prems assms(3) by (rule step_expiry)
  then show ?case using Cons.IH[of "step e s"] by simp
qed

lemma expired_after_lifetime:
  assumes "0 < d" "clock s + d \<le> clock (run es (snd (show_toast msg ty (Some d) rnd s)))"
  shows "generateId (clock s) rnd
           \<notin> toast_id ` set (toasts (run es (snd (show_toast msg ty (Some d) rnd s))))"
proof -
  let ?s' = "snd (show_toast msg ty (Some d) rnd s)"
  have "clock s \<le> clock ?s'" by (simp add: clock_show_toast)
  moreover have "(clock ?s' < clock s + d \<and> (clock s + d, generateId (clock s) rnd) \<in> set (timers ?s'))
         \<or> (clock s + d \<le> clock ?s' \<and> generateId (clock s) rnd \<notin> toast_id ` set (toasts ?s'))"
    using assms(1) by (simp add: clock_show_toast timers_show_toast)
  ultimately show ?thesis
    using run_expiry[of "clock s" ?s' d rnd es] assms by auto
qed

section \<open>The claims about the toast service\<close>

lemmas toast_eval =
  show_toast_def Let_def subject_next_def getValue_def start_timer_def generateId_def
  Number_toString_def digits10.simps digit_char_def slice_def dismiss_def dismissAll_def
  new_ToastService_def DEFAULT_DURATION_def elapse_def due_timers_def

text \<open>
  A call \<open>success('Saved')\<close> at clock reading 1700000000000: the toast it adds has the
  id \<open>toast-1700000000000-k3x9q\<close>, and the value of the call is \<open>undefined\<close>, not that id.
\<close>

theorem show_returns_undefined_example:
  "toast_id (last (toasts (snd (show_toast ''Saved'' Success None ''0.k3x9q2m81f''
       (new_ToastService 1700000000000))))) = ''toast-1700000000000-k3x9q''
   \<and> fst (show_toast ''Saved'' Success None ''0.k3x9q2m81f'' (new_ToastService 1700000000000))
       \<noteq> Some ''toast-1700000000000-k3x9q''"
  by (simp add: toast_eval)

text \<open>
  C1, as the code has it. \<open>show\<close> and the four entry points \<open>success\<close>, \<open>error\<close>,
  \<open>warning\<close>, \<open>info\<close> return nothing; each entry point is \<open>show\<close> with its toast type.
  The id of the new toast is the id of the last entry of the active set the call
  publishes, and \<open>dismiss\<close> with that id leaves no toast of that id in the active set.
\<close>

theorem show_returns_nothing:
  "fst (show_toast msg ty dur rnd s) = None
   \<and> success msg dur rnd s = show_toast msg Success dur rnd s
   \<and> error msg dur rnd s = show_toast msg Error dur rnd s
   \<and> warning msg dur rnd s = show_toast msg Warning dur rnd s
   \<and> info msg dur rnd s = show_toast msg Info dur rnd s
   \<and> toast_id (last (toasts (snd (show_toast msg ty dur rnd s)))) = generateId (clock s) rnd
   \<and> generateId (clock s) rnd
       \<notin> toast_id ` set (toasts (dismiss (generateId (clock s) rnd)
                                  (snd (show_toast msg ty dur rnd s))))"
proof -
  have "fst (show_toast msg ty dur rnd s) = None" by (simp add: show_toast_def Let_def)
  moreover have "toast_id (last (toasts (snd (show_toast msg ty dur rnd s))))
                   = generateId (clock s) rnd"
    by (simp add: toasts_show_toast)
  moreover have "generateId (clock s) rnd
       \<notin> toast_id ` set (toasts (dismiss (generateId (clock s) rnd)
                                  (snd (show_toast msg ty dur rnd s))))"
    by (auto simp: dismiss_simps)
  ultimately show ?thesis by (simp add: success_def error_def warning_def info_def)
qed

text \<open>
  A call of \<open>info\<close> with the empty message and the lifetime -1 on a new service: the
  active set then holds one toast, with the empty message and the duration -1.
\<close>

theorem invalid_arguments_accepted_example:
  "map message (toasts (snd (show_toast '''' Info (Some (- 1)) ''0.k3x9q2m81f''
       (new_ToastService 1700000000000)))) = ['''']
   \<and> map duration (toasts (snd (show_toast '''' Info (Some (- 1)) ''0.k3x9q2m81f''
       (new_ToastService 1700000000000)))) = [- 1]"
  by (simp add: toast_eval)

text \<open>
  C2, as the code has it. \<open>show\<close> checks neither the lifetime nor the message: with a
  negative lifetime or an empty message it raises nothing, returns as any other call
  and appends the toast, lifetime and message stored as given.
\<close>

theorem show_does_not_validate:
  assumes "d < 0 \<or> msg = ''''"
  shows "fst (show_toast msg ty (Some d) rnd s) = None
    \<and> toasts (snd (show_toast msg ty (Some d) rnd s)) =
        toasts s @ [\<lparr>toast_id = generateId (clock s) rnd, message = msg, toast_type = ty,
                     duration = d, createdAt = toISOString (clock s)\<rparr>]"
  by (simp add: toasts_show_toast) (simp add: show_toast_def Let_def)

text \<open>The empty message with the lifetime -1, on a new service.\<close>

theorem show_does_not_validate_witness:
  "((- 1 :: int) < 0 \<or> '''' = '''')
   \<and> fst (show_toast '''' Info (Some (- 1)) ''0.k3x9q2m81f'' (new_ToastService 1700000000000)) = None
   \<and> toasts (snd (show_toast '''' Info (Some (- 1)) ''0.k3x9q2m81f''
               (new_ToastService 1700000000000))) =
       toasts (new_ToastService 1700000000000)
         @ [\<lparr>toast_id = generateId (clock (new_ToastService 1700000000000)) ''0.k3x9q2m81f'',
              message = '''', toast_type = Info, duration = - 1,
              createdAt = toISOString (clock (new_ToastService 1700000000000))\<rparr>]"
  using show_does_not_validate[of "- 1" "''''" Info "''0.k3x9q2m81f''"
      "new_ToastService 1700000000000"]
  by simp

text \<open>
  After \<open>success('Saved')\<close> the first \<open>dismiss\<close> of the toast's id publishes the empty
  list, and the second \<open>dismiss\<close> of the same id publishes the empty list once more:
  the observers receive three values, not two.
\<close>

theorem second_dismiss_publishes_example:
  "map (map message) (emitted (run [Show ''Saved'' Success None ''0.k3x9q2m81f'',
        Dismiss ''toast-1700000000000-k3x9q''] (new_ToastService 1700000000000)))
     = [[''Saved''], []]
   \<and> map (map message) (emitted (run [Show ''Saved'' Success None ''0.k3x9q2m81f'',
        Dismiss ''toast-1700000000000-k3x9q'', Dismiss ''toast-1700000000000-k3x9q'']
        (new_ToastService 1700000000000)))
     = [[''Saved''], [], []]"
  by (simp add: toast_eval)

text \<open>
  C3, as the code has it. The second of two successive calls \<open>dismiss(id)\<close> leaves the
  active set, the timers and the clock as the first call left them, and it publishes
  that unchanged active set to the observers once more: every call of \<open>dismiss\<close>
  publishes. Dismissing an id that no active toast has leaves the active set as
  it is.
\<close>

theorem dismiss_twice:
  "toasts (dismiss i (dismiss i s)) = toasts (dismiss i s)
   \<and> timers (dismiss i (dismiss i s)) = timers (dismiss i s)
   \<and> clock (dismiss i (dismiss i s)) = clock (dismiss i s)
   \<and> emitted (dismiss i s) = emitted s @ [toasts (dismiss i s)]
   \<and> emitted (dismiss i (dismiss i s)) = emitted (dismiss i s) @ [toasts (dismiss i s)]
   \<and> (i \<notin> toast_id ` set (toasts s) \<longrightarrow> toasts (dismiss i s) = toasts s)"
proof -
  have "i \<notin> toast_id ` set (toasts s) \<Longrightarrow> filter (\<lambda>t. toast_id t \<noteq> i) (toasts s) = toasts s"
    by (induction "toasts s") (auto simp: filter_id_conv)
  then show ?thesis by (auto simp: dismiss_simps)
qed

text \<open>The id \<open>x\<close> is absent from a service holding one toast.\<close>

theorem dismiss_twice_witness:
  "''x'' \<notin> toast_id ` set (toasts (run [Show ''Saved'' Success None ''0.k3x9q2m81f'']
                                      (new_ToastService 1700000000000)))
   \<and> toasts (dismiss ''x'' (run [Show ''Saved'' Success None ''0.k3x9q2m81f'']
                                      (new_ToastService 1700000000000)))
     = toasts (run [Show ''Saved'' Success None ''0.k3x9q2m81f'']
                                      (new_ToastService 1700000000000))"
proof -
  have "''x'' \<notin> toast_id ` set (toasts (run [Show ''Saved'' Success None ''0.k3x9q2m81f'']
                                      (new_ToastService 1700000000000)))"
    by (simp add: toast_eval)
  then show ?thesis
    using dismiss_twice[of "''x''" "run [Show ''Saved'' Success None ''0.k3x9q2m81f'']
                                      (new_ToastService 1700000000000)"]
    by blast
qed

text \<open>
  C4 says that no two toasts of the active set share an id, in any state reached by
  \<open>show\<close>, \<open>dismiss\<close> and \<open>dismissAll\<close>. \<open>generateId\<close> builds the id from the millisecond
  clock and five digits of a random number, and nothing compares it with the ids in
  use: two calls of \<open>info\<close> within one millisecond whose random strings agree on the
  characters 2 to 6 leave two active toasts with one id.
\<close>

theorem duplicate_ids_example:
  "map toast_id (toasts (run [Show ''a'' Info None ''0.k3x9q2m81f'',
                              Show ''b'' Info None ''0.k3x9qzzzzz'']
                             (new_ToastService 1700000000000)))
     = [''toast-1700000000000-k3x9q'', ''toast-1700000000000-k3x9q'']"
  by (simp add: toast_eval)

text \<open>
  The ids of the active set stay distinct through every event but a \<open>show\<close> that draws
  an id already in use.
\<close>

lemma step_keeps_ids_distinct:
  assumes "distinct (map toast_id (toasts s))"
    and "\<And>msg ty dur rnd. e = Show msg ty dur rnd
           \<Longrightarrow> generateId (clock s) rnd \<notin> toast_id ` set (toasts s)"
  shows "distinct (map toast_id (toasts (step e s)))"
proof (cases e)
  case (Show msg ty dur rnd)
  then show ?thesis using assms by (simp add: toasts_show_toast)
next
  case (Dismiss i)
  then show ?thesis using assms(1) by (simp add: dismiss_simps distinct_map_filter)
next
  case DismissAll
  then show ?thesis by (simp add: dismissAll_simps)
next
  case (Elapse dt)
  then show ?thesis using assms(1) by (simp add: elapse_simps distinct_map_filter)
qed

text \<open>
  The default lifetime of \<open>info\<close> (5000) is not at most that of \<open>success\<close> (4000).
\<close>

theorem info_default_exceeds_success:
  "\<not> DEFAULT_DURATION Info \<le> DEFAULT_DURATION Success"
  by (simp add: DEFAULT_DURATION_def)

text \<open>
  C5, as the code has it. The default lifetimes increase in the order success, info,
  warning, error (4000, 5000, 6000, 8000): the default of \<open>success\<close> is the shortest
  and the default of \<open>error\<close> is the longest.
\<close>

theorem default_durations_ordered:
  "DEFAULT_DURATION Success < DEFAULT_DURATION Info
   \<and> DEFAULT_DURATION Info < DEFAULT_DURATION Warning
   \<and> DEFAULT_DURATION Warning < DEFAULT_DURATION Error
   \<and> DEFAULT_DURATION Success \<le> DEFAULT_DURATION ty
   \<and> DEFAULT_DURATION ty \<le> DEFAULT_DURATION Error"
  by (cases ty) (simp_all add: DEFAULT_DURATION_def)

text \<open>
  C6 says that a toast created with the lifetime 0 is never removed automatically and
  stays until a caller dismisses it. Here two calls of \<open>info\<close> within one millisecond
  draw the same id; the first toast has the lifetime 100 and the second the lifetime
  0. After 101 milliseconds, with no call of \<open>dismiss\<close> or \<open>dismissAll\<close>, the timer of
  the first has removed both: its callback dismisses by id.
\<close>

theorem zero_lifetime_removed_example:
  "map duration (toasts (run [Show ''b'' Info (Some 100) ''0.k3x9q2m81f'',
                              Show ''a'' Info (Some 0) ''0.k3x9qzzzzz'']
                             (new_ToastService 1700000000000))) = [100, 0]
   \<and> toasts (run [Show ''b'' Info (Some 100) ''0.k3x9q2m81f'',
                  Show ''a'' Info (Some 0) ''0.k3x9qzzzzz'',
                  Elapse 101]
                 (new_ToastService 1700000000000)) = []"
  by (simp add: toast_eval)

text \<open>
  Apart from repeated ids, lifetimes behave as C6 says. \<open>show\<close> with the lifetime 0
  starts no timer, and the new toast stays in the active set along every sequence of
  events in which no caller dismisses its id or all toasts and no pending timer
  carries its id. After \<open>show\<close> with the lifetime 100, in every state reached later
  whose clock is more than 100 milliseconds past the creation, no toast of the new id
  is in the active set.
\<close>

lemma lifetime_zero_and_hundred:
  "timers (snd (show_toast msg ty (Some 0) rnd s)) = timers s
   \<and> (untargeted (generateId (clock s) rnd) es (snd (show_toast msg ty (Some 0) rnd s))
        \<longrightarrow> last (toasts (snd (show_toast msg ty (Some 0) rnd s)))
              \<in> set (toasts (run es (snd (show_toast msg ty (Some 0) rnd s)))))
   \<and> (clock s + 100 < clock (run es' (snd (show_toast msg ty (Some 100) rnd s)))
        \<longrightarrow> generateId (clock s) rnd
              \<notin> toast_id ` set (toasts (run es' (snd (show_toast msg ty (Some 100) rnd s)))))"
proof (intro conjI impI)
  show "timers (snd (show_toast msg ty (Some 0) rnd s)) = timers s"
    by (simp add: timers_show_toast)
next
  let ?s' = "snd (show_toast msg ty (Some 0) rnd s)"
  assume u: "untargeted (generateId (clock s) rnd) es ?s'"
  have "last (toasts ?s') \<in> set (toasts ?s')" by (simp add: toasts_show_toast)
  moreover have "toast_id (last (toasts ?s')) = generateId (clock s) rnd"
    by (simp add: toasts_show_toast)
  ultimately show "last (toasts ?s') \<in> set (toasts (run es ?s'))"
    using u by (intro run_keeps_toast) simp_all
next
  assume "clock s + 100 < clock (run es' (snd (show_toast msg ty (Some 100) rnd s)))"
  then show "generateId (clock s) rnd
       \<notin> toast_id ` set (toasts (run es' (snd (show_toast msg ty (Some 100) rnd s))))"
    by (intro expired_after_lifetime) simp_all
qed

text \<open>
  A toast of lifetime 0 survives another toast's show and expiry; a toast of lifetime
  100 is gone after 101 milliseconds.
\<close>

lemma lifetime_zero_and_hundred_example:
  "untargeted (generateId (clock (new_ToastService 1700000000000)) ''0.k3x9q2m81f'')
      [Show ''b'' Info None ''0.zzzzzzzzzz'', Elapse 60000]
      (snd (show_toast ''a'' Info (Some 0) ''0.k3x9q2m81f'' (new_ToastService 1700000000000)))
   \<and> last (toasts (snd (show_toast ''a'' Info (Some 0) ''0.k3x9q2m81f''
                        (new_ToastService 1700000000000))))
       \<in> set (toasts (run [Show ''b'' Info None ''0.zzzzzzzzzz'', Elapse 60000]
            (snd (show_toast ''a'' Info (Some 0) ''0.k3x9q2m81f''
                   (new_ToastService 1700000000000)))))
   \<and> clock (new_ToastService 1700000000000) + 100
       < clock (run [Elapse 101] (snd (show_toast ''a'' Info (Some 100) ''0.k3x9q2m81f''
                   (new_ToastService 1700000000000))))
   \<and> generateId (clock (new_ToastService 1700000000000)) ''0.k3x9q2m81f''
       \<notin> toast_id ` set (toasts (run [Elapse 101]
            (snd (show_toast ''a'' Info (Some 100) ''0.k3x9q2m81f''
                   (new_ToastService 1700000000000)))))"
proof -
  have h1: "untargeted (generateId (clock (new_ToastService 1700000000000)) ''0.k3x9q2m81f'')
      [Show ''b'' Info None ''0.zzzzzzzzzz'', Elapse 60000]
      (snd (show_toast ''a'' Info (Some 0) ''0.k3x9q2m81f'' (new_ToastService 1700000000000)))"
    by (simp add: toast_eval)
  have h2: "clock (new_ToastService 1700000000000) + 100
       < clock (run [Elapse 101] (snd (show_toast ''a'' Info (Some 100) ''0.k3x9q2m81f''
                   (new_ToastService 1700000000000))))"
    by (simp add: toast_eval)
  show ?thesis
    using h1 h2
      lifetime_zero_and_hundred[of "''a''" Info "''0.k3x9q2m81f''"
        "new_ToastService 1700000000000"
        "[Show ''b'' Info None ''0.zzzzzzzzzz'', Elapse 60000]" "[Elapse 101]"]
    by blast
qed

text \<open>
  C10 says that a toast shown with an explicit negative duration is kept, gets no
  timer and stays until a caller dismisses it. Here two calls of \<open>info\<close> within one
  millisecond draw the same id; the first toast has the lifetime 100 and the second
  the lifetime -1. After 101 milliseconds, with no call of \<open>dismiss\<close> or \<open>dismissAll\<close>,
  the timer of the first has removed both.
\<close>

theorem negative_lifetime_removed_example:
  "map duration (toasts (run [Show ''b'' Info (Some 100) ''0.k3x9q2m81f'',
                              Show ''a'' Info (Some (- 1)) ''0.k3x9qzzzzz'']
                             (new_ToastService 1700000000000))) = [100, - 1]
   \<and> toasts (run [Show ''b'' Info (Some 100) ''0.k3x9q2m81f'',
                  Show ''a'' Info (Some (- 1)) ''0.k3x9qzzzzz'',
                  Elapse 101]
                 (new_ToastService 1700000000000)) = []"
  by (simp add: toast_eval)

text \<open>
  Apart from repeated ids, a negative duration behaves as C10 says. \<open>show\<close> appends the
  toast with that duration stored unchanged and starts no timer; the toast stays in
  the active set along every sequence of events in which no caller dismisses its id
  or all toasts and no pending timer carries its id.
\<close>

lemma negative_duration_kept:
  assumes "d < 0"
  shows "toasts (snd (show_toast msg ty (Some d) rnd s)) =
           toasts s @ [\<lparr>toast_id = generateId (clock s) rnd, message = msg, toast_type = ty,
                        duration = d, createdAt = toISOString (clock s)\<rparr>]
    \<and> timers (snd (show_toast msg ty (Some d) rnd s)) = timers s
    \<and> (untargeted (generateId (clock s) rnd) es (snd (show_toast msg ty (Some d) rnd s))
        \<longrightarrow> last (toasts (snd (show_toast msg ty (Some d) rnd s)))
              \<in> set (toasts (run es (snd (show_toast msg ty (Some d) rnd s)))))"
proof (intro conjI impI)
  let ?s' = "snd (show_toast msg ty (Some d) rnd s)"
  show "toasts ?s' = toasts s @ [\<lparr>toast_id = generateId (clock s) rnd, message = msg,
          toast_type = ty, duration = d, createdAt = toISOString (clock s)\<rparr>]"
    by (simp add: toasts_show_toast)
  show "timers ?s' = timers s" using assms by (simp add: timers_show_toast)
  assume u: "untargeted (generateId (clock s) rnd) es ?s'"
  have "last (toasts ?s') \<in> set (toasts ?s')" by (simp add: toasts_show_toast)
  moreover have "toast_id (last (toasts ?s')) = generateId (clock s) rnd"
    by (simp add: toasts_show_toast)
  ultimately show "last (toasts ?s') \<in> set (toasts (run es ?s'))"
    using u by (intro run_keeps_toast) simp_all
qed

text \<open>A toast of lifetime -1 survives another toast's show and expiry.\<close>

lemma negative_duration_kept_example:
  "(- 1 :: int) < 0
   \<and> untargeted (generateId (clock (new_ToastService 1700000000000)) ''0.k3x9q2m81f'')
      [Show ''b'' Info None ''0.zzzzzzzzzz'', Elapse 60000]
      (snd (show_toast ''a'' Info (Some (- 1)) ''0.k3x9q2m81f'' (new_ToastService 1700000000000)))
   \<and> timers (snd (show_toast ''a'' Info (Some (- 1)) ''0.k3x9q2m81f''
                (new_ToastService 1700000000000))) = timers (new_ToastService 1700000000000)
   \<and> last (toasts (snd (show_toast ''a'' Info (Some (- 1)) ''0.k3x9q2m81f''
                        (new_ToastService 1700000000000))))
       \<in> set (toasts (run [Show ''b'' Info None ''0.zzzzzzzzzz'', Elapse 60000]
            (snd (show_toast ''a'' Info (Some (- 1)) ''0.k3x9q2m81f''
                   (new_ToastService 1700000000000)))))"
proof -
  have h0: "(- 1 :: int) < 0" by simp
  have h1: "untargeted (generateId (clock (new_ToastService 1700000000000)) ''0.k3x9q2m81f'')
      [Show ''b'' Info None ''0.zzzzzzzzzz'', Elapse 60000]
      (snd (show_toast ''a'' Info (Some (- 1)) ''0.k3x9q2m81f'' (new_ToastService 1700000000000)))"
    by (simp add: toast_eval)
  show ?thesis
    using h0 h1
      negative_duration_kept[OF h0, of "''a''" Info "''0.k3x9q2m81f''"
        "new_ToastService 1700000000000"
        "[Show ''b'' Info None ''0.zzzzzzzzzz'', Elapse 60000]"]
    by blast
qed

end
